theory Spec2Isabelle
  imports Main "HOL-Library.Sublist"
begin

section \<open>Text\<close>

text \<open>
  The program is the Streamlit script \<^verbatim>\<open>appandrew.py\<close>. Its \<^verbatim>\<open>str\<close> values are modelled as
  HOL strings. A \<^typ>\<open>char\<close> stands for the code point of the same number, so the model covers
  text whose code points lie below 256; on that range the three definitions below agree with
  \<^verbatim>\<open>str.isspace\<close>, the regular expression class \<^verbatim>\<open>\s\<close> and \<^verbatim>\<open>str.lower\<close>.
\<close>

definition isspace :: "char \<Rightarrow> bool" where
  "isspace c = (let n = (of_char c :: nat) in
     (9 \<le> n \<and> n \<le> 13) \<or> (28 \<le> n \<and> n \<le> 32) \<or> n = 133 \<or> n = 160)"

definition isupper :: "char \<Rightarrow> bool" where
  "isupper c = (let n = (of_char c :: nat) in
     (65 \<le> n \<and> n \<le> 90) \<or> (192 \<le> n \<and> n \<le> 222 \<and> n \<noteq> 215))"

text \<open>
  An upper-case letter and its lower-case letter are 32 apart, and bit 5 (worth 32) is clear in
  every upper-case code, so lower-casing sets that bit.
\<close>

definition lower_char :: "char \<Rightarrow> char" where
  "lower_char c = (if isupper c
     then (case c of Char b0 b1 b2 b3 b4 b5 b6 b7 \<Rightarrow> Char b0 b1 b2 b3 b4 True b6 b7)
     else c)"

definition lower :: "string \<Rightarrow> string" where
  "lower s = map lower_char s"

definition strip :: "string \<Rightarrow> string" where
  "strip s = rev (dropWhile isspace (rev (dropWhile isspace s)))"

section \<open>Flags\<close>

text \<open>The dictionary \<^verbatim>\<open>FLAGS\<close>, in the order of the source; no key occurs twice.\<close>

definition FLAGS :: "(string \<times> string) list" where
  "FLAGS = [
    (''Sambar Power'', ''g''),
    (''Bradford West 100MW'', ''r''),
    (''Bicker Fen 2 Solar'', ''r''),
    (''Didcot Energy Park'', ''r''),
    (''Berkswell Energy Storage'', ''''),
    (''WELBAR ENERGY STORAGE'', ''g''),
    (''Cellarhead 400kV Energy Storage'', ''r''),
    (''Worset Lane Energy Hub'', ''r''),
    (''Sundon Battery Energy Storage'', ''g''),
    (''Capenhurst BESS'', ''g''),
    (''Legacy'', ''''),
    (''Monk Fryston'', ''g''),
    (''Whitegate'', ''r''),
    (''Iron Acton'', ''g''),
    (''Cryogenic Battery System (Synchronous)'', ''g''),
    (''Norwich battery storage'', ''''),
    (''Bolney Green Energy Hub'', ''r''),
    (''Flash Solar Farm (Staythorpe)'', ''g''),
    (''Rushett Lane BESS'', ''r''),
    (''Bramley co-located bess and solar'', ''''),
    (''Fairglen BESS'', ''r''),
    (''Goldborough Road BESS'', ''''),
    (''Fleet EGH (Tertiary) Coxmoor Wood BESS'', ''r''),
    (''WORSET LANE BESS'', ''r''),
    (''Keithick Estate, California Farm solar and battery storage'', ''r''),
    (''Pembroke BESS'', ''''),
    (''Eggborough CCGT - OCGT - BESS'', ''r''),
    (''Neilston 400kV Greener Grid Park'', ''g''),
    (''Coylton 275kV Greener Grid Park'', ''g''),
    (''Sizing John (Rainhill)'', ''g''),
    (''Harker Green Energy Centre'', ''''),
    (''Zenobe Blackhillock 300 MW'', ''g'')]"

definition normalize_flag :: "string \<Rightarrow> string" where
  "normalize_flag x = (let x = lower (strip x) in if x = ''g'' \<or> x = ''r'' then x else '''')"

text \<open>\<^verbatim>\<open>FLAGS.get(key, "")\<close> is the lookup with the empty string for an absent key.\<close>

definition row_flag :: "string \<Rightarrow> string" where
  "row_flag project_name =
     (let key = strip project_name
      in normalize_flag (case map_of FLAGS key of Some v \<Rightarrow> v | None \<Rightarrow> ''''))"

section \<open>Cell values\<close>

text \<open>
  A cell of the spreadsheet holds \<^verbatim>\<open>None\<close>, a float, a string or some other object (an integer,
  a timestamp). \<^verbatim>\<open>str\<close> is Python's own, so a value that is not a string carries the text
  \<^verbatim>\<open>str\<close> gives for it.
\<close>

datatype py_float = NaN | Num string

datatype pyvalue = PyNone | PyFloat py_float | PyStr string | PyOther string

fun py_str :: "pyvalue \<Rightarrow> string" where
  "py_str PyNone = ''None''"
| "py_str (PyFloat NaN) = ''nan''"
| "py_str (PyFloat (Num t)) = t"
| "py_str (PyStr s) = s"
| "py_str (PyOther t) = t"

fun is_float :: "pyvalue \<Rightarrow> bool" where
  "is_float (PyFloat f) = True"
| "is_float v = False"

text \<open>\<^verbatim>\<open>pd.isna\<close> on a scalar.\<close>

fun isna :: "pyvalue \<Rightarrow> bool" where
  "isna PyNone = True"
| "isna (PyFloat NaN) = True"
| "isna v = False"

definition safe_str :: "pyvalue \<Rightarrow> string" where
  "safe_str v =
     (if v = PyNone then ''''
      else if is_float v \<and> isna v then ''''
      else py_str v)"


section \<open>Sources\<close>

text \<open>
  \<^verbatim>\<open>render_sources\<close> draws on the page. The model returns the Streamlit calls it makes, in
  order: \<open>St_write_dash\<close> is \<^verbatim>\<open>st.write\<close> of the dash placeholder (one character, code point
  8212, outside the range of \<^typ>\<open>char\<close>, hence a constructor of its own) and
  \<open>St_markdown s\<close> is \<^verbatim>\<open>st.markdown(s)\<close>.
\<close>

datatype st_call = St_write_dash | St_markdown string

text \<open>\<^verbatim>\<open>re.split(r"[;\n]", t)\<close>: the pieces between the separators, empty pieces included.\<close>

definition is_sep :: "char \<Rightarrow> bool" where
  "is_sep c = (c = CHR '';'' \<or> c = CHR 0x0A)"

fun re_split :: "string \<Rightarrow> string list" where
  "re_split [] = [[]]"
| "re_split (c # cs) =
     (if is_sep c then [] # re_split cs
      else (case re_split cs of p # ps \<Rightarrow> (c # p) # ps | [] \<Rightarrow> [[c]]))"

text \<open>
  \<^verbatim>\<open>URL_RE = re.compile(r"(https?://[^\s,]+)", re.IGNORECASE)\<close>. \<open>match_ci\<close> matches a
  literal at the head of the text without regard to letter case and answers the text after
  it; \<open>scheme_rest\<close> is \<^verbatim>\<open>https?://\<close> (the optional letter is tried first, as the greedy
  \<^verbatim>\<open>?\<close> does); \<open>URL_RE_match\<close> is one match attempt at the head of the text, answering
  the matched text and the text after it. The class \<^verbatim>\<open>[^\s,]+\<close> takes the longest run.
\<close>

definition url_char :: "char \<Rightarrow> bool" where
  "url_char c = (\<not> isspace c \<and> c \<noteq> CHR '','')"

definition match_ci :: "string \<Rightarrow> string \<Rightarrow> string option" where
  "match_ci pat s =
     (if length pat \<le> length s \<and> lower (take (length pat) s) = lower pat
      then Some (drop (length pat) s) else None)"

definition scheme_rest :: "string \<Rightarrow> string option" where
  "scheme_rest s =
     (case match_ci ''https://'' s of Some r \<Rightarrow> Some r | None \<Rightarrow> match_ci ''http://'' s)"

definition URL_RE_match :: "string \<Rightarrow> (string \<times> string) option" where
  "URL_RE_match s =
     (case scheme_rest s of
        None \<Rightarrow> None
      | Some r \<Rightarrow>
          (if takeWhile url_char r = [] then None
           else Some (take (length s - length (dropWhile url_char r)) s, dropWhile url_char r)))"

subsection \<open>A match is a non-empty prefix\<close>

lemma lower_length: "length (lower s) = length s"
  by (simp add: lower_def)

lemma lower_append: "lower (a @ b) = lower a @ lower b"
  by (simp add: lower_def)

lemma lower_take: "lower (take n s) = take n (lower s)"
  by (simp add: lower_def take_map)

lemma match_ci_Some:
  "match_ci pat s = Some r \<longleftrightarrow> (\<exists>m. s = m @ r \<and> lower m = lower pat)"
proof
  assume "match_ci pat s = Some r"
  then have le: "length pat \<le> length s"
    and eq: "lower (take (length pat) s) = lower pat"
    and r: "r = drop (length pat) s"
    by (auto simp: match_ci_def split: if_splits)
  from r eq have "s = take (length pat) s @ r \<and> lower (take (length pat) s) = lower pat"
    by simp
  then show "\<exists>m. s = m @ r \<and> lower m = lower pat"
    by blast
next
  assume "\<exists>m. s = m @ r \<and> lower m = lower pat"
  then obtain m where s: "s = m @ r" and m: "lower m = lower pat"
    by blast
  from m have "length (lower m) = length (lower pat)"
    by simp
  then have len: "length m = length pat"
    by (simp add: lower_length)
  with s m show "match_ci pat s = Some r"
    by (simp add: match_ci_def)
qed

lemma lower_schemes:
  "lower ''https://'' = ''https://''" "lower ''http://'' = ''http://''"
  by (simp_all add: lower_def lower_char_def isupper_def)

lemma schemes_exclusive:
  assumes "lower m = ''http://''" and "lower m' = ''https://''" and "m @ r = m' @ r'"
  shows False
proof -
  from assms(1) have "length (lower m) = 7" by simp
  then have lm: "length m = 7" by (simp add: lower_length)
  from assms(2) have "length (lower m') = 8" by simp
  then have lm': "length m' = 8" by (simp add: lower_length)
  from assms(3) have "take 5 (m @ r) = take 5 (m' @ r')" by simp
  with lm lm' have "take 5 m = take 5 m'" by simp
  then have "take 5 (lower m) = take 5 (lower m')"
    by (simp add: lower_take [symmetric])
  with assms(1,2) show False by simp
qed

lemma scheme_rest_Some:
  "scheme_rest s = Some r \<longleftrightarrow>
     (\<exists>m. s = m @ r \<and> (lower m = ''https://'' \<or> lower m = ''http://''))"
proof
  assume "scheme_rest s = Some r"
  then have "match_ci ''https://'' s = Some r \<or> match_ci ''http://'' s = Some r"
    by (auto simp: scheme_rest_def split: option.splits)
  then show "\<exists>m. s = m @ r \<and> (lower m = ''https://'' \<or> lower m = ''http://'')"
    unfolding match_ci_Some lower_schemes by blast
next
  assume "\<exists>m. s = m @ r \<and> (lower m = ''https://'' \<or> lower m = ''http://'')"
  then obtain m where s: "s = m @ r"
    and m: "lower m = ''https://'' \<or> lower m = ''http://''"
    by blast
  from m show "scheme_rest s = Some r"
  proof
    assume "lower m = ''https://''"
    with s have "match_ci ''https://'' s = Some r"
      unfolding match_ci_Some lower_schemes by blast
    then show ?thesis by (simp add: scheme_rest_def)
  next
    assume h: "lower m = ''http://''"
    with s have m7: "match_ci ''http://'' s = Some r"
      unfolding match_ci_Some lower_schemes by blast
    have "match_ci ''https://'' s = None"
    proof (cases "match_ci ''https://'' s")
      case (Some r')
      then obtain m' where "s = m' @ r'" and "lower m' = ''https://''"
        unfolding match_ci_Some lower_schemes by blast
      with s h schemes_exclusive [of m m' r r'] show ?thesis by simp
    qed simp
    with m7 show ?thesis by (simp add: scheme_rest_def)
  qed
qed

lemma URL_RE_match_scheme:
  assumes "lower m = ''https://'' \<or> lower m = ''http://''"
  shows "URL_RE_match (m @ y) =
     (if takeWhile url_char y = [] then None
      else Some (m @ takeWhile url_char y, dropWhile url_char y))"
proof -
  from assms have sr: "scheme_rest (m @ y) = Some y"
    unfolding scheme_rest_Some by blast
  define tk where "tk = takeWhile url_char y"
  define dr where "dr = dropWhile url_char y"
  have y: "y = tk @ dr"
    by (simp add: tk_def dr_def)
  have "take (length (m @ y) - length dr) (m @ y) = m @ tk"
    unfolding y by simp
  then have "take (length (m @ y) - length (dropWhile url_char y)) (m @ y)
      = m @ takeWhile url_char y"
    by (simp only: tk_def dr_def)
  with sr show ?thesis
    by (simp add: URL_RE_match_def)
qed

lemma URL_RE_match_Some:
  assumes "URL_RE_match s = Some (u, rest)"
  shows "\<exists>m y. s = m @ y \<and> (lower m = ''https://'' \<or> lower m = ''http://'')
     \<and> takeWhile url_char y \<noteq> [] \<and> u = m @ takeWhile url_char y
     \<and> rest = dropWhile url_char y"
proof -
  from assms obtain r where sr: "scheme_rest s = Some r"
    by (auto simp: URL_RE_match_def split: option.splits)
  then obtain m where s: "s = m @ r"
    and m: "lower m = ''https://'' \<or> lower m = ''http://''"
    unfolding scheme_rest_Some by blast
  from assms s URL_RE_match_scheme [OF m, of r]
  have "takeWhile url_char r \<noteq> [] \<and> u = m @ takeWhile url_char r
      \<and> rest = dropWhile url_char r"
    by (auto split: if_splits)
  with s m show ?thesis by blast
qed

lemma URL_RE_match_split:
  assumes "URL_RE_match s = Some (u, rest)"
  shows "s = u @ rest \<and> u \<noteq> []"
proof -
  from URL_RE_match_Some [OF assms] obtain m y where
    "s = m @ y" "takeWhile url_char y \<noteq> []" "u = m @ takeWhile url_char y"
    "rest = dropWhile url_char y"
    by blast
  then show ?thesis by simp
qed

lemma URL_RE_match_shorter:
  "URL_RE_match s = Some (u, rest) \<Longrightarrow> length rest < length s"
  using URL_RE_match_split [of s u rest] by (cases u) auto

subsection \<open>Finding, replacing, rendering\<close>

text \<open>
  \<^verbatim>\<open>URL_RE.findall(part)\<close>: the matches from left to right, the scan resuming after each
  match.
\<close>

function URL_RE_findall :: "string \<Rightarrow> string list" where
  "URL_RE_findall [] = []"
| "URL_RE_findall (c # cs) =
     (case URL_RE_match (c # cs) of
        Some (u, rest) \<Rightarrow> u # URL_RE_findall rest
      | None \<Rightarrow> URL_RE_findall cs)"
  by pat_completeness auto
termination
  by (relation "measure length") (auto dest: URL_RE_match_shorter)

text \<open>
  \<^verbatim>\<open>s.replace(old, new)\<close>: every occurrence of \<open>old\<close>, from left to right without overlap.
  For the empty \<open>old\<close> Python puts \<open>new\<close> before every character and at the end.
\<close>

function replace :: "string \<Rightarrow> string \<Rightarrow> string \<Rightarrow> string" where
  "replace old new s =
     (if old = [] then new @ concat (map (\<lambda>c. c # new) s)
      else (case s of
              [] \<Rightarrow> []
            | c # cs \<Rightarrow>
                (if prefix old s then new @ replace old new (drop (length old) s)
                 else c # replace old new cs)))"
  by pat_completeness auto
termination
  by (relation "measure (\<lambda>(old, new, s). length s)") auto

declare replace.simps [simp del]

text \<open>The text \<^verbatim>\<open>f"[{u}]({u})"\<close>.\<close>

definition link :: "string \<Rightarrow> string" where
  "link u = ''['' @ u @ '']('' @ u @ '')''"

text \<open>The loop \<^verbatim>\<open>for u in urls: md = md.replace(u, f"[{u}]({u})")\<close>.\<close>

fun replace_urls :: "string list \<Rightarrow> string \<Rightarrow> string" where
  "replace_urls [] md = md"
| "replace_urls (u # us) md = replace_urls us (replace u (link u) md)"

text \<open>The body of the loop over the parts, for a part that is not empty after \<^verbatim>\<open>strip\<close>.\<close>

definition render_part :: "string \<Rightarrow> st_call" where
  "render_part part =
     (let urls = URL_RE_findall part
      in if urls \<noteq> [] then St_markdown (''- '' @ replace_urls urls part)
         else St_markdown (''- '' @ part))"

fun render_parts :: "string list \<Rightarrow> st_call list" where
  "render_parts [] = []"
| "render_parts (part # parts) =
     (let p = strip part
      in if p = [] then render_parts parts else render_part p # render_parts parts)"

definition render_sources :: "string \<Rightarrow> st_call list" where
  "render_sources text =
     (let t = strip text
      in if t = [] then [St_write_dash] else render_parts (re_split t))"

section \<open>Normalising the columns\<close>

text \<open>
  A \<^verbatim>\<open>DataFrame\<close> is its row count and its columns in order, each a label with one cell per
  row. Labels may repeat, as pandas allows. A label is carried as the text \<^verbatim>\<open>str(c)\<close> gives.
\<close>

datatype key_error = KeyError "string list"

record dataframe =
  nrows :: nat
  columns :: "(string \<times> pyvalue list) list"

definition COLUMNS :: "string list" where
  "COLUMNS = [''Project Name'', ''Company'', ''MW'', ''Location'', ''Connection date'',
     ''Comments'', ''Sources'', ''PNG Name'']"

definition labels :: "dataframe \<Rightarrow> string list" where
  "labels df = map fst (columns df)"

text \<open>\<^verbatim>\<open>df.columns = [str(c).strip() for c in df.columns]\<close>\<close>

definition strip_columns :: "dataframe \<Rightarrow> dataframe" where
  "strip_columns df = df\<lparr>columns := map (\<lambda>(c, vs). (strip c, vs)) (columns df)\<rparr>"

text \<open>
  \<^verbatim>\<open>{c.lower(): c for c in df.columns}\<close>: the entries are stored from left to right, a later
  label replacing an earlier one with the same key.
\<close>

definition actual_lower_of :: "string list \<Rightarrow> (string \<rightharpoonup> string)" where
  "actual_lower_of cs = fold (\<lambda>c m. m(lower c \<mapsto> c)) cs Map.empty"

text \<open>
  \<^verbatim>\<open>df[name] = v\<close> for a scalar \<open>v\<close>: every column labelled \<open>name\<close> is overwritten; where there
  is none, a column is appended.
\<close>

definition setitem :: "dataframe \<Rightarrow> string \<Rightarrow> pyvalue \<Rightarrow> dataframe" where
  "setitem df name v =
     (if name \<in> set (labels df)
      then df\<lparr>columns :=
             map (\<lambda>(c, vs). if c = name then (c, replicate (nrows df) v) else (c, vs))
               (columns df)\<rparr>
      else df\<lparr>columns := columns df @ [(name, replicate (nrows df) v)]\<rparr>)"

text \<open>The first loop, over the expected columns, on the pair of \<^verbatim>\<open>rename\<close> and \<^verbatim>\<open>df\<close>.\<close>

fun match_expected ::
  "(string \<rightharpoonup> string) \<Rightarrow> string list \<Rightarrow> (string \<rightharpoonup> string) \<times> dataframe
     \<Rightarrow> (string \<rightharpoonup> string) \<times> dataframe" where
  "match_expected actual_lower [] (rename, df) = (rename, df)"
| "match_expected actual_lower (expected # rest) (rename, df) =
     (let key = lower expected
      in match_expected actual_lower rest
           (case actual_lower key of
              Some a \<Rightarrow> (rename(a \<mapsto> expected), df)
            | None \<Rightarrow> (rename, setitem df expected (PyStr ''''))))"

text \<open>\<^verbatim>\<open>df.rename(columns=rename)\<close>\<close>

definition rename_columns :: "dataframe \<Rightarrow> (string \<rightharpoonup> string) \<Rightarrow> dataframe" where
  "rename_columns df rename =
     df\<lparr>columns := map (\<lambda>(c, vs). (case rename c of Some c' \<Rightarrow> c' | None \<Rightarrow> c, vs)) (columns df)\<rparr>"

text \<open>The second loop: \<^verbatim>\<open>if c not in df.columns: df[c] = ""\<close>.\<close>

fun fill_missing :: "string list \<Rightarrow> dataframe \<Rightarrow> dataframe" where
  "fill_missing [] df = df"
| "fill_missing (c # rest) df =
     fill_missing rest (if c \<notin> set (labels df) then setitem df c (PyStr '''') else df)"

text \<open>
  \<^verbatim>\<open>df[cs]\<close> for a list of labels: \<^verbatim>\<open>KeyError\<close> when a label is absent; otherwise, for each
  label of the list in turn, every column that carries it.
\<close>

definition getitem_list :: "dataframe \<Rightarrow> string list \<Rightarrow> key_error + dataframe" where
  "getitem_list df cs =
     (case filter (\<lambda>c. c \<notin> set (labels df)) cs of
        [] \<Rightarrow> Inr (df\<lparr>columns := concat (map (\<lambda>c. filter (\<lambda>(l, vs). l = c) (columns df)) cs)\<rparr>)
      | missing \<Rightarrow> Inl (KeyError missing))"

text \<open>
  The function works on a copy (\<^verbatim>\<open>df = df.copy()\<close>), so the table of the caller is left as it
  was and the model takes the table by value.
\<close>

definition normalize_columns :: "dataframe \<Rightarrow> key_error + dataframe" where
  "normalize_columns df0 =
     (let df = strip_columns df0;
          actual_lower = actual_lower_of (labels df);
          (rename, df) = match_expected actual_lower COLUMNS (Map.empty, df);
          df = rename_columns df rename;
          df = fill_missing COLUMNS df
      in getitem_list df COLUMNS)"

text \<open>
  The same function as a call on objects. A store holds the tables, an address is an index
  into it, and \<open>arg\<close> is the address of the table of the caller, one of the store.
  \<^verbatim>\<open>copy\<close>, \<^verbatim>\<open>rename\<close> and the selection each allocate a table; the assignment to
  \<^verbatim>\<open>df.columns\<close> and the assignments \<^verbatim>\<open>df[c] = ""\<close> of the two loops change the table at the
  address the name \<^verbatim>\<open>df\<close> holds at that point. The call answers the store it leaves and the
  address of the table it returns.
\<close>

definition alloc :: "dataframe list \<Rightarrow> dataframe \<Rightarrow> dataframe list \<times> nat" where
  "alloc s d = (s @ [d], length s)"

definition normalize_columns_call ::
  "dataframe list \<Rightarrow> nat \<Rightarrow> dataframe list \<times> (key_error + nat)" where
  "normalize_columns_call s0 arg =
     (let (s, df) = alloc s0 (s0 ! arg);
          s = s[df := strip_columns (s ! df)];
          actual_lower = actual_lower_of (labels (s ! df));
          (rename, d) = match_expected actual_lower COLUMNS (Map.empty, s ! df);
          s = s[df := d];
          (s, df) = alloc s (rename_columns (s ! df) rename);
          s = s[df := fill_missing COLUMNS (s ! df)]
      in case getitem_list (s ! df) COLUMNS of
           Inl e \<Rightarrow> (s, Inl e)
         | Inr selected \<Rightarrow>
             (let (s, sel) = alloc s selected;
                  (s, res) = alloc s (s ! sel)
              in (s, Inr res)))"

section \<open>Loading\<close>

definition EXCEL_FILE :: string where
  "EXCEL_FILE = ''BESS In construction.xlsx''"

text \<open>
  What a call of \<^verbatim>\<open>load_df\<close> sees of the world: \<^verbatim>\<open>os.path.exists\<close> and \<^verbatim>\<open>pd.read_excel\<close>,
  which answers a table or raises an error of its own, of type \<open>'e\<close>.
\<close>

datatype 'e load_error =
  FileNotFoundError string | Raised_by_read_excel 'e | Raised_by_normalize key_error

record 'e files =
  path_exists :: "string \<Rightarrow> bool"
  read_excel :: "string \<Rightarrow> 'e + dataframe"

text \<open>The function as written, lines 125 to 128.\<close>

definition load_df_body :: "'e files \<Rightarrow> string \<Rightarrow> 'e load_error + dataframe" where
  "load_df_body fs path =
     (if \<not> path_exists fs path
      then Inl (FileNotFoundError (''Excel file not found next to app.py: '' @ EXCEL_FILE))
      else (case read_excel fs path of
              Inl e \<Rightarrow> Inl (Raised_by_read_excel e)
            | Inr df \<Rightarrow>
                (case normalize_columns df of
                   Inl k \<Rightarrow> Inl (Raised_by_normalize k)
                 | Inr out \<Rightarrow> Inr out)))"

text \<open>
  The function as decorated: \<^verbatim>\<open>@st.cache_data\<close> keeps the table a call returned, keyed by the
  argument, and answers a later call with the same argument from that store without running
  the body. A call that raises stores nothing. The store is threaded through.
\<close>

definition load_df ::
  "(string \<rightharpoonup> dataframe) \<Rightarrow> 'e files \<Rightarrow> string
     \<Rightarrow> ('e load_error + dataframe) \<times> (string \<rightharpoonup> dataframe)" where
  "load_df cache fs path =
     (case cache path of
        Some df \<Rightarrow> (Inr df, cache)
      | None \<Rightarrow>
          (case load_df_body fs path of
             Inr df \<Rightarrow> (Inr df, cache(path \<mapsto> df))
           | Inl e \<Rightarrow> (Inl e, cache)))"

section \<open>Notions used in the statements\<close>

text \<open>The separators put back between the pieces.\<close>

fun join :: "string list \<Rightarrow> string \<Rightarrow> string" where
  "join (p # ps) (c # cs) = p @ c # join ps cs"
| "join (p # ps) [] = p"
| "join [] cs = []"

text \<open>The raw columns whose label, trimmed, equals the expected field up to letter case.\<close>

definition matching :: "dataframe \<Rightarrow> string \<Rightarrow> (string \<times> pyvalue list) list" where
  "matching df e = filter (\<lambda>(c, vs). lower (strip c) = lower e) (columns df)"

text \<open>The values of an expected field: those of its matching column, else empty strings.\<close>

definition expected_values :: "dataframe \<Rightarrow> string \<Rightarrow> pyvalue list" where
  "expected_values df e =
     (case matching df e of [] \<Rightarrow> replicate (nrows df) (PyStr '''') | (c, vs) # others \<Rightarrow> vs)"

text \<open>
  The label a column carries after the renaming, and the columns the first loop appends, for
  the list \<open>L\<close> of the trimmed labels.
\<close>

definition renamed :: "string list \<Rightarrow> string \<Rightarrow> string" where
  "renamed L c =
     (case find (\<lambda>e. actual_lower_of L (lower e) = Some c) COLUMNS of
        Some e \<Rightarrow> e | None \<Rightarrow> c)"

definition added :: "string list \<Rightarrow> nat \<Rightarrow> (string \<times> pyvalue list) list" where
  "added L n =
     map (\<lambda>e. (e, replicate n (PyStr '''')))
       (filter (\<lambda>e. actual_lower_of L (lower e) = None) COLUMNS)"

text \<open>Example tables and worlds.\<close>

definition raw1 :: dataframe where
  "raw1 = \<lparr>nrows = 2, columns = [
     (''project name'', [PyStr ''A'', PyStr ''B'']),
     (''Company'', [PyStr ''X'', PyNone]),
     (''MW '', [PyOther ''100'', PyFloat NaN]),
     (''junk'', [PyNone, PyNone])]\<rparr>"

definition raw_mw_twice :: dataframe where
  "raw_mw_twice = \<lparr>nrows = 1, columns = [(''MW'', [PyOther ''1'']), (''MW '', [PyOther ''2''])]\<rparr>"

definition raw_mw_cases :: dataframe where
  "raw_mw_cases = \<lparr>nrows = 1, columns = [(''mw'', [PyOther ''1'']), (''MW'', [PyOther ''2''])]\<rparr>"

definition empty_table :: dataframe where
  "empty_table = \<lparr>nrows = 0, columns = []\<rparr>"

definition files_missing :: "unit files" where
  "files_missing = \<lparr>path_exists = (\<lambda>p. False), read_excel = (\<lambda>p. Inl ())\<rparr>"

definition files_unreadable :: "unit files" where
  "files_unreadable = \<lparr>path_exists = (\<lambda>p. True), read_excel = (\<lambda>p. Inl ())\<rparr>"

definition files_empty_sheet :: "unit files" where
  "files_empty_sheet = \<lparr>path_exists = (\<lambda>p. True), read_excel = (\<lambda>p. Inr empty_table)\<rparr>"

lemmas text_eval = strip_def isspace_def lower_def lower_char_def isupper_def

section \<open>Properties of the flags and of the cell text\<close>

lemma FLAGS_distinct: "distinct (map fst FLAGS)"
  by (simp add: FLAGS_def)

lemma FLAGS_values: "map_of FLAGS k = Some v \<Longrightarrow> v = ''g'' \<or> v = ''r'' \<or> v = ''''"
proof -
  assume "map_of FLAGS k = Some v"
  then have "v \<in> snd ` set FLAGS"
    by (metis map_of_SomeD image_eqI snd_conv)
  then show ?thesis
    by (simp add: FLAGS_def) blast
qed

lemma normalize_flag_literals:
  "normalize_flag ''g'' = ''g''" "normalize_flag ''r'' = ''r''" "normalize_flag '''' = ''''"
  by (simp_all add: normalize_flag_def strip_def lower_def lower_char_def isupper_def isspace_def)

text \<open>
  C3. \<^verbatim>\<open>row_flag\<close> trims the project name, looks it up in \<^verbatim>\<open>FLAGS\<close> by exact match and
  answers \<^verbatim>\<open>"g"\<close> (green) exactly when the stored flag is the literal \<^verbatim>\<open>"g"\<close>, \<^verbatim>\<open>"r"\<close> (red)
  exactly when it is the literal \<^verbatim>\<open>"r"\<close>, and the empty string (none) otherwise: for an absent
  key and for a key stored with the empty flag. Whatever a flag value is, it is accepted only
  when, trimmed and lower-cased, it is \<^verbatim>\<open>"g"\<close> or \<^verbatim>\<open>"r"\<close>. The three examples of the
  specification hold.
\<close>

theorem row_flag_resolves:
  "row_flag name =
     (if map_of FLAGS (strip name) = Some ''g'' then ''g''
      else if map_of FLAGS (strip name) = Some ''r'' then ''r''
      else '''')
   \<and> normalize_flag v =
       (if lower (strip v) = ''g'' then ''g'' else if lower (strip v) = ''r'' then ''r'' else '''')
   \<and> row_flag ''  Sambar Power  '' = ''g''
   \<and> row_flag ''Unknown Project'' = ''''
   \<and> row_flag ''Berkswell Energy Storage'' = ''''"
proof -
  have flag: "normalize_flag v =
       (if lower (strip v) = ''g'' then ''g'' else if lower (strip v) = ''r'' then ''r'' else '''')"
    by (simp add: normalize_flag_def Let_def)
  have general: "row_flag name =
     (if map_of FLAGS (strip name) = Some ''g'' then ''g''
      else if map_of FLAGS (strip name) = Some ''r'' then ''r''
      else '''')"
  proof (cases "map_of FLAGS (strip name)")
    case None
    then show ?thesis
      by (simp add: row_flag_def normalize_flag_literals)
  next
    case (Some v)
    then have "v = ''g'' \<or> v = ''r'' \<or> v = ''''"
      by (rule FLAGS_values)
    with Some show ?thesis
      by (auto simp: row_flag_def normalize_flag_literals)
  qed
  have sambar: "strip ''  Sambar Power  '' = ''Sambar Power''"
    by (simp add: strip_def isspace_def)
  have unknown: "strip ''Unknown Project'' = ''Unknown Project''"
    by (simp add: strip_def isspace_def)
  have berkswell: "strip ''Berkswell Energy Storage'' = ''Berkswell Energy Storage''"
    by (simp add: strip_def isspace_def)
  have ex1: "row_flag ''  Sambar Power  '' = ''g''"
    unfolding row_flag_def Let_def sambar
    by (simp add: FLAGS_def normalize_flag_literals)
  have ex2: "row_flag ''Unknown Project'' = ''''"
    unfolding row_flag_def Let_def unknown
    by (simp add: FLAGS_def normalize_flag_literals)
  have ex3: "row_flag ''Berkswell Energy Storage'' = ''''"
    unfolding row_flag_def Let_def berkswell
    by (simp add: FLAGS_def normalize_flag_literals)
  from general flag ex1 ex2 ex3 show ?thesis
    by blast
qed

text \<open>
  C6. \<^verbatim>\<open>safe_str\<close> answers for every cell value: the empty string for \<^verbatim>\<open>None\<close> and for a float
  that is not a number, and the text \<^verbatim>\<open>str\<close> gives for every other value.
\<close>

theorem safe_str_total:
  "safe_str v = (if v = PyNone \<or> v = PyFloat NaN then '''' else py_str v)
   \<and> safe_str PyNone = '''' \<and> safe_str (PyFloat NaN) = ''''"
proof -
  have "safe_str v = (if v = PyNone \<or> v = PyFloat NaN then '''' else py_str v)"
  proof (cases v)
    case (PyFloat f)
    then show ?thesis
      by (cases f) (simp_all add: safe_str_def)
  qed (simp_all add: safe_str_def)
  then show ?thesis
    by (simp add: safe_str_def)
qed


section \<open>Properties of the sources\<close>

subsection \<open>Splitting\<close>

lemma re_split_nonempty: "re_split s \<noteq> []"
  by (induction s) (auto split: list.splits)

lemma re_split_join: "join (re_split s) (filter is_sep s) = s"
proof (induction s)
  case Nil
  then show ?case by simp
next
  case (Cons c s)
  obtain p ps where ps: "re_split s = p # ps"
    using re_split_nonempty [of s] by (cases "re_split s") auto
  with Cons show ?case
    by (cases "filter is_sep s") (auto split: list.splits)
qed

lemma re_split_length: "length (re_split s) = Suc (length (filter is_sep s))"
proof (induction s)
  case Nil
  then show ?case by simp
next
  case (Cons c s)
  obtain p ps where "re_split s = p # ps"
    using re_split_nonempty [of s] by (cases "re_split s") auto
  with Cons show ?case by auto
qed

lemma re_split_pieces:
  "p \<in> set (re_split s) \<Longrightarrow> c \<in> set p \<Longrightarrow> c \<in> set s \<and> \<not> is_sep c"
proof (induction s arbitrary: p)
  case Nil
  then show ?case by simp
next
  case (Cons a s)
  show ?case
  proof (cases "is_sep a")
    case True
    with Cons.prems have "p = [] \<or> p \<in> set (re_split s)" by auto
    with Cons show ?thesis by auto
  next
    case False
    obtain q qs where q: "re_split s = q # qs"
      using re_split_nonempty [of s] by (cases "re_split s") auto
    with False Cons.prems(1) have "p = a # q \<or> p \<in> set qs" by auto
    then show ?thesis
    proof
      assume "p = a # q"
      with Cons.prems(2) have "c = a \<or> c \<in> set q" by auto
      with False Cons.IH [of q] q show ?thesis by auto
    next
      assume "p \<in> set qs"
      with Cons.IH [of p] Cons.prems(2) q show ?thesis by auto
    qed
  qed
qed

lemma strip_all_space:
  assumes "\<forall>c\<in>set s. isspace c"
  shows "strip s = []"
  using assms by (auto simp: strip_def dest: set_dropWhileD)

lemma set_strip: "set (strip s) \<subseteq> set s"
proof -
  have "set (dropWhile isspace (rev (dropWhile isspace s))) \<subseteq> set (rev (dropWhile isspace s))"
    by (meson set_dropWhileD subsetI)
  also have "\<dots> \<subseteq> set s"
    using set_dropWhileD by fastforce
  finally show ?thesis by (simp add: strip_def)
qed

lemma render_parts_dropped: "\<forall>p\<in>set ps. strip p = [] \<Longrightarrow> render_parts ps = []"
  by (induction ps) simp_all

lemma render_parts_map_filter:
  "render_parts ps = map render_part (filter (\<lambda>p. p \<noteq> []) (map strip ps))"
  by (induction ps) (simp_all add: Let_def)

lemma render_sources_structure:
  "render_sources text =
     (if strip text = [] then [St_write_dash]
      else map render_part (filter (\<lambda>p. p \<noteq> []) (map strip (re_split (strip text)))))"
  by (simp add: render_sources_def render_parts_map_filter)

lemma render_sources_spec_example:
  "render_sources '''' = [St_write_dash]"
  "render_sources ''see https://example.com/a, https://example.com/b; also note'' =
   [St_markdown ''- see [https://example.com/a](https://example.com/a), [https://example.com/b](https://example.com/b)'',
    St_markdown ''- also note'']"
  by code_simp+

text \<open>
  C9. A text that is not empty after trimming and holds nothing but semicolons, newlines and
  white space yields no call at all: neither a fragment nor the dash.
\<close>

theorem render_sources_only_separators:
  assumes "strip text \<noteq> []"
    and "\<forall>c\<in>set text. c = CHR '';'' \<or> c = CHR 0x0A \<or> isspace c"
  shows "render_sources text = []"
proof -
  have "\<forall>p\<in>set (re_split (strip text)). strip p = []"
  proof
    fix p assume p: "p \<in> set (re_split (strip text))"
    have "\<forall>c\<in>set p. isspace c"
    proof
      fix c assume "c \<in> set p"
      with p have "c \<in> set (strip text)" and "\<not> is_sep c"
        using re_split_pieces by blast+
      with assms(2) set_strip [of "text"] show "isspace c"
        by (auto simp: is_sep_def)
    qed
    then show "strip p = []" by (rule strip_all_space)
  qed
  then have "render_parts (re_split (strip text)) = []"
    by (rule render_parts_dropped)
  with assms(1) show ?thesis
    by (simp add: render_sources_def)
qed

theorem render_sources_only_separators_witness:
  "strip [CHR '' '', CHR '';'', CHR 0x0A, CHR '' '', CHR '';'', CHR '' ''] \<noteq> []
   \<and> render_sources [CHR '' '', CHR '';'', CHR 0x0A, CHR '' '', CHR '';'', CHR '' ''] = []"
  using render_sources_only_separators
    [of "[CHR '' '', CHR '';'', CHR 0x0A, CHR '' '', CHR '';'', CHR '' '']"]
  by (simp add: strip_def isspace_def)

subsection \<open>Replacing\<close>

lemma replace_Nil: "old \<noteq> [] \<Longrightarrow> replace old new [] = []"
  by (subst replace.simps) simp

lemma replace_hit:
  assumes "old \<noteq> []"
  shows "replace old new (old @ t) = new @ replace old new t"
proof -
  from assms obtain c cs where e: "old @ t = c # cs"
    by (cases old) auto
  have "replace old new (c # cs) =
      (if prefix old (c # cs) then new @ replace old new (drop (length old) (c # cs))
       else c # replace old new cs)"
    by (subst replace.simps) (simp add: assms)
  then have "replace old new (old @ t) =
      (if prefix old (old @ t) then new @ replace old new (drop (length old) (old @ t))
       else c # replace old new cs)"
    by (simp only: e)
  then show ?thesis by simp
qed

lemma replace_miss:
  "old \<noteq> [] \<Longrightarrow> \<not> prefix old (c # cs) \<Longrightarrow> replace old new (c # cs) = c # replace old new cs"
  by (subst replace.simps) simp

lemma replace_skip:
  assumes "old \<noteq> []"
  shows "(\<forall>k<length pre. \<not> prefix old (drop k (pre @ t)))
     \<Longrightarrow> replace old new (pre @ t) = pre @ replace old new t"
proof (induction pre)
  case Nil
  then show ?case by simp
next
  case (Cons c pre)
  from Cons.prems have "\<not> prefix old (drop 0 ((c # pre) @ t))"
    by (metis length_greater_0_conv list.distinct(1))
  then have miss: "\<not> prefix old (c # (pre @ t))" by simp
  have "\<forall>k<length pre. \<not> prefix old (drop k (pre @ t))"
  proof (intro allI impI)
    fix k assume "k < length pre"
    then have "Suc k < length (c # pre)" by simp
    with Cons.prems have "\<not> prefix old (drop (Suc k) ((c # pre) @ t))" by blast
    then show "\<not> prefix old (drop k (pre @ t))" by simp
  qed
  with Cons.IH have "replace old new (pre @ t) = pre @ replace old new t" by blast
  with miss assms show ?case
    by (simp add: replace_miss)
qed

lemma replace_absent:
  assumes "old \<noteq> []" and "\<forall>k<length s. \<not> prefix old (drop k s)"
  shows "replace old new s = s"
  using replace_skip [OF assms(1), of s "[]" new] assms by (simp add: replace_Nil)

subsection \<open>A part with one URL\<close>

lemma URL_RE_findall_Nil:
  "URL_RE_findall s = [] \<Longrightarrow> k < length s \<Longrightarrow> URL_RE_match (drop k s) = None"
proof (induction s arbitrary: k rule: URL_RE_findall.induct)
  case 1
  then show ?case by simp
next
  case (2 c cs)
  from "2.prems"(1) have none: "URL_RE_match (c # cs) = None"
    by (auto split: option.splits)
  with "2.prems"(1) have rest: "URL_RE_findall cs = []" by simp
  show ?case
  proof (cases k)
    case 0
    with none show ?thesis by simp
  next
    case (Suc j)
    with "2.prems"(2) have "j < length cs" by simp
    with "2.IH"(1) [OF none rest] Suc show ?thesis by simp
  qed
qed

lemma URL_RE_findall_single:
  "URL_RE_findall s = [u] \<Longrightarrow>
     \<exists>pre rest. s = pre @ u @ rest
       \<and> (\<forall>k<length pre. URL_RE_match (drop k s) = None)
       \<and> URL_RE_match (u @ rest) = Some (u, rest)
       \<and> URL_RE_findall rest = []"
proof (induction s rule: URL_RE_findall.induct)
  case 1
  then show ?case by simp
next
  case (2 c cs)
  show ?case
  proof (cases "URL_RE_match (c # cs)")
    case None
    with "2.prems" have "URL_RE_findall cs = [u]" by simp
    from "2.IH"(1) [OF None this] obtain pre rest where
      cs: "cs = pre @ u @ rest"
      and pre: "\<forall>k<length pre. URL_RE_match (drop k cs) = None"
      and hit: "URL_RE_match (u @ rest) = Some (u, rest)"
      and rest: "URL_RE_findall rest = []"
      by blast
    have "\<forall>k<length (c # pre). URL_RE_match (drop k (c # cs)) = None"
    proof (intro allI impI)
      fix k assume k: "k < length (c # pre)"
      show "URL_RE_match (drop k (c # cs)) = None"
      proof (cases k)
        case 0
        with None show ?thesis by simp
      next
        case (Suc j)
        with k pre show ?thesis by simp
      qed
    qed
    with cs hit rest have "c # cs = (c # pre) @ u @ rest
       \<and> (\<forall>k<length (c # pre). URL_RE_match (drop k (c # cs)) = None)
       \<and> URL_RE_match (u @ rest) = Some (u, rest)
       \<and> URL_RE_findall rest = []"
      by simp
    then show ?thesis by blast
  next
    case (Some a)
    obtain v rest where a: "a = (v, rest)" by (cases a)
    with Some "2.prems" have v: "v = u" and rest: "URL_RE_findall rest = []" by simp_all
    from Some a v have hit: "URL_RE_match (c # cs) = Some (u, rest)" by simp
    then have "c # cs = u @ rest" by (simp add: URL_RE_match_split)
    with hit rest have "c # cs = [] @ u @ rest
       \<and> (\<forall>k<length ([] :: string). URL_RE_match (drop k (c # cs)) = None)
       \<and> URL_RE_match (u @ rest) = Some (u, rest)
       \<and> URL_RE_findall rest = []"
      by simp
    then show ?thesis by blast
  qed
qed

lemma URL_RE_match_prefix:
  assumes "URL_RE_match s = Some (u, rest)" and "prefix u t"
  shows "URL_RE_match t \<noteq> None"
proof -
  from URL_RE_match_Some [OF assms(1)] obtain m y where
    m: "lower m = ''https://'' \<or> lower m = ''http://''"
    and ne: "takeWhile url_char y \<noteq> []"
    and u: "u = m @ takeWhile url_char y"
    by blast
  from assms(2) obtain x where t: "t = u @ x"
    by (auto simp: prefix_def)
  from ne have "url_char (hd (takeWhile url_char y))"
    by (metis hd_in_set set_takeWhileD)
  with ne have "takeWhile url_char (takeWhile url_char y @ x) \<noteq> []"
    by (cases "takeWhile url_char y") auto
  with URL_RE_match_scheme [OF m, of "takeWhile url_char y @ x"] t u
  show ?thesis by simp
qed

lemma render_part_single:
  assumes "URL_RE_findall part = [u]"
  shows "\<exists>pre post. part = pre @ u @ post
     \<and> render_part part = St_markdown (''- '' @ pre @ link u @ post)"
proof -
  from URL_RE_findall_single [OF assms] obtain pre rest where
    part: "part = pre @ u @ rest"
    and pre: "\<forall>k<length pre. URL_RE_match (drop k part) = None"
    and hit: "URL_RE_match (u @ rest) = Some (u, rest)"
    and rest: "URL_RE_findall rest = []"
    by blast
  from hit have ne: "u \<noteq> []" by (simp add: URL_RE_match_split)
  have "\<forall>k<length pre. \<not> prefix u (drop k (pre @ u @ rest))"
    using pre URL_RE_match_prefix [OF hit] part by blast
  then have a: "replace u (link u) (pre @ u @ rest) = pre @ replace u (link u) (u @ rest)"
    by (rule replace_skip [OF ne])
  have "\<forall>k<length rest. \<not> prefix u (drop k rest)"
    using URL_RE_findall_Nil [OF rest] URL_RE_match_prefix [OF hit] by blast
  then have "replace u (link u) rest = rest"
    by (rule replace_absent [OF ne])
  with a ne have "replace u (link u) part = pre @ link u @ rest"
    by (simp add: part replace_hit)
  with assms have "render_part part = St_markdown (''- '' @ pre @ link u @ rest)"
    by (simp add: render_part_def)
  with part show ?thesis by blast
qed

subsection \<open>Letter case\<close>

lemma url_char_lower_Char:
  "url_char (lower_char (Char b0 b1 b2 b3 b4 b5 b6 b7)) = url_char (Char b0 b1 b2 b3 b4 b5 b6 b7)"
  by (cases b0; cases b1; cases b2; cases b3; cases b4; cases b5; cases b6; cases b7;
      simp add: url_char_def isspace_def lower_char_def isupper_def)

lemma url_char_lower: "url_char (lower_char c) = url_char c"
  by (cases c) (simp only: url_char_lower_Char)

lemma lower_char_idem_Char:
  "lower_char (lower_char (Char b0 b1 b2 b3 b4 b5 b6 b7)) = lower_char (Char b0 b1 b2 b3 b4 b5 b6 b7)"
  by (cases b0; cases b1; cases b2; cases b3; cases b4; cases b5; cases b6; cases b7;
      simp add: lower_char_def isupper_def)

lemma lower_char_idem: "lower_char (lower_char c) = lower_char c"
  by (cases c) (simp only: lower_char_idem_Char)

lemma lower_idem: "lower (lower s) = lower s"
  by (simp add: lower_def lower_char_idem)

lemma lower_drop: "lower (drop n s) = drop n (lower s)"
  by (simp add: lower_def drop_map)

lemma takeWhile_url_lower: "takeWhile url_char (lower s) = lower (takeWhile url_char s)"
  by (induction s) (simp_all add: lower_def url_char_lower)

lemma dropWhile_url_lower: "dropWhile url_char (lower s) = lower (dropWhile url_char s)"
  by (induction s) (simp_all add: lower_def url_char_lower)

lemma match_ci_lower: "match_ci pat (lower s) = map_option lower (match_ci pat s)"
  by (simp add: match_ci_def lower_length lower_take [symmetric] lower_idem lower_drop)

lemma scheme_rest_lower: "scheme_rest (lower s) = map_option lower (scheme_rest s)"
  by (simp add: scheme_rest_def match_ci_lower split: option.splits)

lemma URL_RE_match_lower:
  "URL_RE_match (lower s) = map_option (\<lambda>(u, rest). (lower u, lower rest)) (URL_RE_match s)"
proof (cases "scheme_rest s")
  case None
  then show ?thesis
    by (simp add: URL_RE_match_def scheme_rest_lower)
next
  case (Some r)
  have "lower (takeWhile url_char r) = [] \<longleftrightarrow> takeWhile url_char r = []"
    by (simp add: lower_def)
  with Some show ?thesis
    by (simp add: URL_RE_match_def scheme_rest_lower takeWhile_url_lower dropWhile_url_lower
        lower_length lower_take)
qed

lemma URL_RE_findall_lower: "URL_RE_findall (lower s) = map lower (URL_RE_findall s)"
proof (induction s rule: URL_RE_findall.induct)
  case 1
  then show ?case by (simp add: lower_def)
next
  case (2 c cs)
  have cons: "lower (c # cs) = lower_char c # lower cs"
    by (simp add: lower_def)
  show ?case
  proof (cases "URL_RE_match (c # cs)")
    case None
    then have "URL_RE_match (lower_char c # lower cs) = None"
      using URL_RE_match_lower [of "c # cs"] by (simp add: cons)
    with None "2.IH"(1) show ?thesis
      by (simp add: cons)
  next
    case (Some a)
    obtain u rest where a: "a = (u, rest)" by (cases a)
    with Some have "URL_RE_match (lower_char c # lower cs) = Some (lower u, lower rest)"
      using URL_RE_match_lower [of "c # cs"] by (simp add: cons)
    with Some a "2.IH"(2) [OF Some a [symmetric]] show ?thesis
      by (simp add: cons)
  qed
qed

lemma lower_scheme_sep:
  assumes "lower sch = ''http'' \<or> lower sch = ''https''"
  shows "lower (sch @ ''://'') = ''https://'' \<or> lower (sch @ ''://'') = ''http://''"
proof -
  have "lower ''://'' = ''://''"
    by (simp add: lower_def lower_char_def isupper_def)
  with assms show ?thesis
    by (auto simp: lower_append)
qed

subsection \<open>A URL in its context\<close>

text \<open>
  White space and commas end a URL and cannot be part of the scheme, so the scan of a text
  is the scan of what stands before such a character followed by the scan of what stands
  after it. Hence \<^verbatim>\<open>http\<close> or \<^verbatim>\<open>https\<close> in any casing, followed by \<^verbatim>\<open>://\<close> and by one or more
  characters that are neither white space nor a comma, is detected wherever it follows the
  start of the text, white space or a comma; and a part that holds no other URL is rendered
  with this one as a link to itself, in the casing it has.
\<close>

lemma scheme_url_chars:
  assumes "lower m = ''https://'' \<or> lower m = ''http://''"
  shows "\<forall>c\<in>set m. url_char c"
proof -
  from assms have "\<forall>d\<in>set (lower m). url_char d"
    by (auto simp: url_char_def isspace_def)
  then show ?thesis
    by (simp add: lower_def url_char_lower)
qed

lemma takeWhile_sep: "\<not> P sep \<Longrightarrow> takeWhile P (r @ sep # t) = takeWhile P r"
  by (induction r) simp_all

lemma dropWhile_sep: "\<not> P sep \<Longrightarrow> dropWhile P (r @ sep # t) = dropWhile P r @ sep # t"
  by (induction r) simp_all

lemma URL_RE_match_sep:
  assumes "\<not> url_char sep"
  shows "URL_RE_match (x @ sep # t)
     = map_option (\<lambda>(u, r). (u, r @ sep # t)) (URL_RE_match x)"
proof (cases "scheme_rest x")
  case (Some r)
  then obtain m where x: "x = m @ r"
    and m: "lower m = ''https://'' \<or> lower m = ''http://''"
    unfolding scheme_rest_Some by blast
  from URL_RE_match_scheme [OF m, of "r @ sep # t"] URL_RE_match_scheme [OF m, of r] assms
  show ?thesis
    by (simp add: x takeWhile_sep dropWhile_sep)
next
  case None
  then have none: "URL_RE_match x = None"
    by (simp add: URL_RE_match_def)
  have "scheme_rest (x @ sep # t) = None"
  proof (cases "scheme_rest (x @ sep # t)")
    case (Some r')
    then obtain m where eq: "x @ sep # t = m @ r'"
      and m: "lower m = ''https://'' \<or> lower m = ''http://''"
      unfolding scheme_rest_Some by blast
    from eq obtain us where "(x = m @ us \<and> us @ sep # t = r') \<or> (x @ us = m \<and> sep # t = us @ r')"
      unfolding append_eq_append_conv2 by blast
    then show ?thesis
    proof
      assume "x = m @ us \<and> us @ sep # t = r'"
      with m have "scheme_rest x = Some us"
        unfolding scheme_rest_Some by blast
      with None show ?thesis by simp
    next
      assume a: "x @ us = m \<and> sep # t = us @ r'"
      show ?thesis
      proof (cases us)
        case Nil
        with a m have "scheme_rest x = Some []"
          unfolding scheme_rest_Some by auto
        with None show ?thesis by simp
      next
        case (Cons d ds)
        with a have "sep \<in> set m" by auto
        with scheme_url_chars [OF m] assms show ?thesis by blast
      qed
    qed
  qed simp
  then have "URL_RE_match (x @ sep # t) = None"
    by (simp add: URL_RE_match_def)
  with none show ?thesis by simp
qed

lemma URL_RE_match_Nil: "URL_RE_match [] = None"
  by (simp add: URL_RE_match_def scheme_rest_def match_ci_def)

lemma URL_RE_findall_sep:
  assumes "\<not> url_char sep"
  shows "URL_RE_findall (x @ sep # t) = URL_RE_findall x @ URL_RE_findall t"
proof (induction x rule: URL_RE_findall.induct)
  case 1
  from URL_RE_match_sep [OF assms, of "[]" t] show ?case
    by (simp add: URL_RE_match_Nil)
next
  case (2 c cs)
  show ?case
  proof (cases "URL_RE_match (c # cs)")
    case None
    with URL_RE_match_sep [OF assms, of "c # cs" t]
    have "URL_RE_match (c # cs @ sep # t) = None" by simp
    with None "2.IH"(1) show ?thesis by simp
  next
    case (Some a)
    obtain u r where a: "a = (u, r)" by (cases a)
    with Some URL_RE_match_sep [OF assms, of "c # cs" t]
    have "URL_RE_match (c # cs @ sep # t) = Some (u, r @ sep # t)" by simp
    with Some a "2.IH"(2) [OF Some a [symmetric]] show ?thesis by simp
  qed
qed

lemma URL_RE_findall_hit:
  assumes "URL_RE_match s = Some (u, rest)"
  shows "URL_RE_findall s = u # URL_RE_findall rest"
proof -
  from assms obtain c cs where "s = c # cs"
    by (cases s) (auto simp: URL_RE_match_Nil)
  with assms show ?thesis by simp
qed

lemma URL_RE_match_shape:
  assumes "lower sch = ''http'' \<or> lower sch = ''https''" and "body \<noteq> []"
    and "\<forall>c\<in>set body. url_char c" and "post = [] \<or> \<not> url_char (hd post)"
  shows "URL_RE_match (sch @ ''://'' @ body @ post) = Some (sch @ ''://'' @ body, post)"
proof -
  define m where "m = sch @ ''://''"
  have m: "lower m = ''https://'' \<or> lower m = ''http://''"
    unfolding m_def using assms(1) by (rule lower_scheme_sep)
  have tk: "takeWhile url_char (body @ post) = body"
    using assms(3,4) by (cases post) (auto simp: takeWhile_append2)
  have dr: "dropWhile url_char (body @ post) = post"
    using assms(3,4) by (cases post) (auto simp: dropWhile_append2)
  from URL_RE_match_scheme [OF m, of "body @ post"] assms(2) show ?thesis
    by (simp add: tk dr m_def)
qed

lemma URL_RE_findall_in_context:
  assumes "lower sch = ''http'' \<or> lower sch = ''https''" and "body \<noteq> []"
    and "\<forall>c\<in>set body. url_char c" and "post = [] \<or> \<not> url_char (hd post)"
    and "pre = [] \<or> \<not> url_char (last pre)"
  shows "URL_RE_findall (pre @ sch @ ''://'' @ body @ post)
     = URL_RE_findall pre @ (sch @ ''://'' @ body) # URL_RE_findall post"
proof -
  have hit: "URL_RE_findall (sch @ ''://'' @ body @ post)
      = (sch @ ''://'' @ body) # URL_RE_findall post"
    using URL_RE_match_shape [OF assms(1-4)] by (rule URL_RE_findall_hit)
  show ?thesis
  proof (cases pre rule: rev_cases)
    case Nil
    with hit show ?thesis by simp
  next
    case (snoc pre0 sep)
    with assms(5) have sep: "\<not> url_char sep" by simp
    from URL_RE_findall_sep [OF sep, of pre0 "sch @ ''://'' @ body @ post"]
      URL_RE_findall_sep [OF sep, of pre0 "[]"] hit snoc
    show ?thesis by simp
  qed
qed

lemma render_part_in_context:
  assumes "lower sch = ''http'' \<or> lower sch = ''https''" and "body \<noteq> []"
    and "\<forall>c\<in>set body. url_char c" and "post = [] \<or> \<not> url_char (hd post)"
    and "pre = [] \<or> \<not> url_char (last pre)"
    and "URL_RE_findall pre = []" and "URL_RE_findall post = []"
  shows "render_part (pre @ sch @ ''://'' @ body @ post)
     = St_markdown (''- '' @ pre @ link (sch @ ''://'' @ body) @ post)"
proof -
  define u where "u = sch @ ''://'' @ body"
  have hit: "URL_RE_match (u @ post) = Some (u, post)"
    using URL_RE_match_shape [OF assms(1-4)] by (simp add: u_def)
  then have ne: "u \<noteq> []" by (simp add: URL_RE_match_split)
  have all: "URL_RE_findall (pre @ u @ post) = [u]"
    using URL_RE_findall_in_context [OF assms(1-5)] assms(6,7) by (simp add: u_def)
  have "\<forall>k<length pre. \<not> prefix u (drop k (pre @ u @ post))"
  proof (intro allI impI)
    fix k assume k: "k < length pre"
    then obtain pre0 sep where pre: "pre = pre0 @ [sep]"
      by (cases pre rule: rev_cases) auto
    with assms(5) have sep: "\<not> url_char sep" by simp
    from k pre have k0: "k \<le> length pre0" by simp
    from URL_RE_findall_Nil [OF assms(6) k]
    have "URL_RE_match (drop k pre0 @ sep # []) = None"
      using k0 by (simp add: pre)
    with URL_RE_match_sep [OF sep, of "drop k pre0" "[]"]
    have "URL_RE_match (drop k pre0) = None" by simp
    with URL_RE_match_sep [OF sep, of "drop k pre0" "u @ post"]
    have "URL_RE_match (drop k (pre @ u @ post)) = None"
      using k0 by (simp add: pre)
    with URL_RE_match_prefix [OF hit] show "\<not> prefix u (drop k (pre @ u @ post))"
      by blast
  qed
  then have a: "replace u (link u) (pre @ u @ post) = pre @ replace u (link u) (u @ post)"
    by (rule replace_skip [OF ne])
  have "\<forall>k<length post. \<not> prefix u (drop k post)"
    using URL_RE_findall_Nil [OF assms(7)] URL_RE_match_prefix [OF hit] by blast
  then have "replace u (link u) post = post"
    by (rule replace_absent [OF ne])
  with a ne have "replace u (link u) (pre @ u @ post) = pre @ link u @ post"
    by (simp add: replace_hit)
  with all have "render_part (pre @ u @ post) = St_markdown (''- '' @ pre @ link u @ post)"
    by (simp add: render_part_def)
  then show ?thesis
    by (simp add: u_def)
qed

lemma render_sources_upper_case_example:
  "render_sources ''see HTTPS://X.Y ok'' = [St_markdown ''- see [HTTPS://X.Y](HTTPS://X.Y) ok'']"
  by code_simp

text \<open>
  C10. Detection does not depend on letter case (\<open>URL_RE_findall_lower\<close>,
  \<open>URL_RE_findall_in_context\<close>), but the wrapping goes through the loop of C2 and C4, which
  compares the texts letter by letter and replaces every occurrence once per listed URL. In
  a part with the same URL written once with an upper-case and once with a lower-case
  scheme, the two texts differ and each is wrapped once; in the same part in lower case the
  URL is listed twice and each occurrence is wrapped twice; and so is an upper-case URL that
  occurs twice. A URL with an upper-case scheme is therefore neither always wrapped as a
  link to itself nor always wrapped like the lower-case one.
\<close>

theorem render_sources_scheme_case:
  "render_sources ''HTTP://a.b http://a.b'' =
     [St_markdown ''- [HTTP://a.b](HTTP://a.b) [http://a.b](http://a.b)'']
   \<and> lower ''HTTP://a.b http://a.b'' = ''http://a.b http://a.b''
   \<and> render_sources ''http://a.b http://a.b'' =
     [St_markdown ''- [[http://a.b](http://a.b)]([http://a.b](http://a.b)) [[http://a.b](http://a.b)]([http://a.b](http://a.b))'']
   \<and> render_sources ''HTTPS://A.B HTTPS://A.B'' =
     [St_markdown ''- [[HTTPS://A.B](HTTPS://A.B)]([HTTPS://A.B](HTTPS://A.B)) [[HTTPS://A.B](HTTPS://A.B)]([HTTPS://A.B](HTTPS://A.B))'']"
proof -
  have a: "render_sources ''HTTP://a.b http://a.b'' =
     [St_markdown ''- [HTTP://a.b](HTTP://a.b) [http://a.b](http://a.b)'']"
    by code_simp
  have b: "lower ''HTTP://a.b http://a.b'' = ''http://a.b http://a.b''"
    by (simp add: lower_def lower_char_def isupper_def)
  have c: "render_sources ''http://a.b http://a.b'' =
     [St_markdown ''- [[http://a.b](http://a.b)]([http://a.b](http://a.b)) [[http://a.b](http://a.b)]([http://a.b](http://a.b))'']"
    by code_simp
  have d: "render_sources ''HTTPS://A.B HTTPS://A.B'' =
     [St_markdown ''- [[HTTPS://A.B](HTTPS://A.B)]([HTTPS://A.B](HTTPS://A.B)) [[HTTPS://A.B](HTTPS://A.B)]([HTTPS://A.B](HTTPS://A.B))'']"
    by code_simp
  from a b c d show ?thesis
    by (simp only: simp_thms)
qed

subsection \<open>A URL that occurs again\<close>

text \<open>
  C2. For a part in which the same URL occurs twice, \<^verbatim>\<open>findall\<close> lists it twice, and each
  round of the loop replaces every occurrence in the text as rewritten so far. The second
  round therefore rewrites the four copies the first round produced: each occurrence ends up
  wrapped twice, not once as a link to itself.
\<close>

theorem render_sources_repeated_url:
  "render_sources ''https://a.b https://a.b'' =
   [St_markdown ''- [[https://a.b](https://a.b)]([https://a.b](https://a.b)) [[https://a.b](https://a.b)]([https://a.b](https://a.b))'']"
  by code_simp

text \<open>
  C4. The same loop on a text of two fragments, the first holding a URL and a second URL that
  is a prefix of it: the shorter one is replaced inside the link already made for the longer
  one, so the first detected URL is not rendered as a link to itself.
\<close>

theorem render_sources_nested_url:
  "render_sources ''see https://a.b/c and https://a.b; note'' =
   [St_markdown ''- see [[https://a.b](https://a.b)/c]([https://a.b](https://a.b)/c) and [https://a.b](https://a.b)'',
    St_markdown ''- note'']"
  by code_simp

section \<open>Properties of the normalisation\<close>

subsection \<open>The expected columns and the lookup table\<close>

lemma COLUMNS_distinct_lower: "distinct (map lower COLUMNS)"
  by (simp add: COLUMNS_def lower_def lower_char_def isupper_def)

lemma COLUMNS_distinct: "distinct COLUMNS"
  using COLUMNS_distinct_lower by (simp add: distinct_map)

lemma COLUMNS_lower_inj:
  "e \<in> set COLUMNS \<Longrightarrow> e' \<in> set COLUMNS \<Longrightarrow> lower e = lower e' \<Longrightarrow> e = e'"
  using COLUMNS_distinct_lower by (meson distinct_map inj_onD)

lemma COLUMNS_strip: "e \<in> set COLUMNS \<Longrightarrow> strip e = e"
  by (auto simp: COLUMNS_def strip_def isspace_def)

lemma fold_upd_lookup:
  "fold (\<lambda>c m. m(lower c \<mapsto> c)) cs m k =
     (case filter (\<lambda>c. lower c = k) cs of [] \<Rightarrow> m k | x # xs \<Rightarrow> Some (last (x # xs)))"
  by (induction cs arbitrary: m) (auto split: list.splits)

lemma actual_lower_lookup:
  "actual_lower_of cs k =
     (case filter (\<lambda>c. lower c = k) cs of [] \<Rightarrow> None | x # xs \<Rightarrow> Some (last (x # xs)))"
  by (simp add: actual_lower_of_def fold_upd_lookup)

lemma actual_lower_Some:
  assumes "actual_lower_of cs k = Some a"
  shows "a \<in> set cs \<and> lower a = k"
proof -
  from assms obtain x xs where f: "filter (\<lambda>c. lower c = k) cs = x # xs"
    and a: "a = last (x # xs)"
    by (auto simp: actual_lower_lookup split: list.splits)
  have "a \<in> set (filter (\<lambda>c. lower c = k) cs)"
    unfolding f a by (rule last_in_set) simp
  then show ?thesis by simp
qed

lemma actual_lower_None:
  "actual_lower_of cs k = None \<longleftrightarrow> (\<forall>c\<in>set cs. lower c \<noteq> k)"
proof -
  have "actual_lower_of cs k = None \<longleftrightarrow> filter (\<lambda>c. lower c = k) cs = []"
    by (simp add: actual_lower_lookup split: list.splits)
  then show ?thesis by (simp add: filter_empty_conv)
qed

subsection \<open>The steps\<close>

lemma labels_setitem_list:
  "labels (setitem df name v) =
     (if name \<in> set (labels df) then labels df else labels df @ [name])"
  by (auto simp: setitem_def labels_def split: prod.splits)

lemma labels_setitem:
  "set (labels (setitem df name v)) = insert name (set (labels df))"
  by (auto simp: labels_setitem_list)

lemma nrows_setitem: "nrows (setitem df name v) = nrows df"
  by (simp add: setitem_def)

lemma labels_fill_missing:
  "set (labels (fill_missing cs df)) = set cs \<union> set (labels df)"
  by (induction cs arbitrary: df) (auto simp: labels_setitem)

lemma fill_missing_present:
  "set cs \<subseteq> set (labels df) \<Longrightarrow> fill_missing cs df = df"
  by (induction cs arbitrary: df) auto

lemma getitem_list_present:
  assumes "set cs \<subseteq> set (labels df)"
  shows "getitem_list df cs =
     Inr (df\<lparr>columns := concat (map (\<lambda>c. filter (\<lambda>(l, vs). l = c) (columns df)) cs)\<rparr>)"
proof -
  from assms have "filter (\<lambda>c. c \<notin> set (labels df)) cs = []"
    by (auto simp: filter_empty_conv)
  then show ?thesis by (simp add: getitem_list_def)
qed

lemma labels_strip_columns:
  "labels (strip_columns df) = map (\<lambda>(c, vs). strip c) (columns df)"
  by (simp add: labels_def strip_columns_def split_def comp_def)

lemma match_expected_rename:
  assumes al: "\<And>k a. al k = Some a \<Longrightarrow> lower a = k"
  shows "distinct (map lower es) \<Longrightarrow>
     fst (match_expected al es (r, d)) a =
       (case find (\<lambda>e. al (lower e) = Some a) es of Some e \<Rightarrow> Some e | None \<Rightarrow> r a)"
proof (induction es arbitrary: r d)
  case Nil
  then show ?case by simp
next
  case (Cons e0 es)
  obtain r' d' where st:
    "(case al (lower e0) of
        Some a0 \<Rightarrow> (r(a0 \<mapsto> e0), d)
      | None \<Rightarrow> (r, setitem d e0 (PyStr ''''))) = (r', d')"
    by (cases "case al (lower e0) of
        Some a0 \<Rightarrow> (r(a0 \<mapsto> e0), d)
      | None \<Rightarrow> (r, setitem d e0 (PyStr ''''))")
  from Cons.prems have dist: "distinct (map lower es)"
    and notin: "lower e0 \<notin> lower ` set es"
    by simp_all
  have step: "fst (match_expected al (e0 # es) (r, d)) a = fst (match_expected al es (r', d')) a"
    by (simp add: Let_def st)
  have IH: "fst (match_expected al es (r', d')) a =
      (case find (\<lambda>e. al (lower e) = Some a) es of Some e \<Rightarrow> Some e | None \<Rightarrow> r' a)"
    by (rule Cons.IH [OF dist])
  show ?case
  proof (cases "al (lower e0) = Some a")
    case True
    have none: "find (\<lambda>e. al (lower e) = Some a) es = None"
    proof (rule ccontr)
      assume "find (\<lambda>e. al (lower e) = Some a) es \<noteq> None"
      then obtain e where "e \<in> set es" and "al (lower e) = Some a"
        by (auto simp: find_None_iff)
      with True al [of "lower e" a] al [of "lower e0" a] have "lower e0 \<in> lower ` set es"
        by auto
      with notin show False by contradiction
    qed
    from True st have r': "r' a = Some e0" by auto
    from step IH have "fst (match_expected al (e0 # es) (r, d)) a =
        (case find (\<lambda>e. al (lower e) = Some a) es of Some e \<Rightarrow> Some e | None \<Rightarrow> r' a)"
      by (rule trans)
    also have "\<dots> = Some e0"
      by (simp only: none r' option.case)
    also have "\<dots> =
        (case find (\<lambda>e. al (lower e) = Some a) (e0 # es) of Some e \<Rightarrow> Some e | None \<Rightarrow> r a)"
      using True by simp
    finally show ?thesis .
  next
    case False
    with st have r': "r' a = r a" by (auto split: option.splits)
    from step IH have "fst (match_expected al (e0 # es) (r, d)) a =
        (case find (\<lambda>e. al (lower e) = Some a) es of Some e \<Rightarrow> Some e | None \<Rightarrow> r' a)"
      by (rule trans)
    also have "\<dots> =
        (case find (\<lambda>e. al (lower e) = Some a) es of Some e \<Rightarrow> Some e | None \<Rightarrow> r a)"
      by (simp only: r')
    also have "\<dots> =
        (case find (\<lambda>e. al (lower e) = Some a) (e0 # es) of Some e \<Rightarrow> Some e | None \<Rightarrow> r a)"
      using False by simp
    finally show ?thesis .
  qed
qed

lemma match_expected_frame:
  "distinct es \<Longrightarrow> (\<forall>e\<in>set es. al (lower e) = None \<longrightarrow> e \<notin> set (labels d)) \<Longrightarrow>
     snd (match_expected al es (r, d)) =
       d\<lparr>columns := columns d @
          map (\<lambda>e. (e, replicate (nrows d) (PyStr '''')))
            (filter (\<lambda>e. al (lower e) = None) es)\<rparr>"
proof (induction es arbitrary: r d)
  case Nil
  then show ?case by simp
next
  case (Cons e0 es)
  from Cons.prems(1) have dist: "distinct es" and e0: "e0 \<notin> set es" by simp_all
  show ?case
  proof (cases "al (lower e0)")
    case None
    with Cons.prems(2) have fresh: "e0 \<notin> set (labels d)" by simp
    define d' where "d' = setitem d e0 (PyStr '''')"
    from fresh have d': "d' = d\<lparr>columns := columns d @ [(e0, replicate (nrows d) (PyStr ''''))]\<rparr>"
      by (simp add: d'_def setitem_def)
    have "\<forall>e\<in>set es. al (lower e) = None \<longrightarrow> e \<notin> set (labels d')"
      using Cons.prems(2) e0 by (auto simp: d' labels_def)
    from Cons.IH [OF dist this, of r]
    have "snd (match_expected al es (r, d')) =
       d'\<lparr>columns := columns d' @
          map (\<lambda>e. (e, replicate (nrows d') (PyStr '''')))
            (filter (\<lambda>e. al (lower e) = None) es)\<rparr>" .
    with None show ?thesis
      by (simp add: Let_def d'_def [symmetric]) (simp add: d')
  next
    case (Some a0)
    from Cons.prems(2) have prem: "\<forall>e\<in>set es. al (lower e) = None \<longrightarrow> e \<notin> set (labels d)"
      by simp
    have eq: "match_expected al (e0 # es) (r, d) = match_expected al es (r(a0 \<mapsto> e0), d)"
      using Some by (simp add: Let_def)
    have flt: "filter (\<lambda>e. al (lower e) = None) (e0 # es) = filter (\<lambda>e. al (lower e) = None) es"
      using Some by simp
    show ?thesis
      unfolding eq flt by (rule Cons.IH [OF dist prem])
  qed
qed

lemma renamed_target:
  assumes "e \<in> set COLUMNS" and "actual_lower_of L (lower e) = Some a"
  shows "renamed L a = e"
proof -
  from assms have "find (\<lambda>e'. actual_lower_of L (lower e') = Some a) COLUMNS \<noteq> None"
    by (auto simp: find_None_iff)
  then obtain e' where f: "find (\<lambda>e'. actual_lower_of L (lower e') = Some a) COLUMNS = Some e'"
    by auto
  then have "e' \<in> set COLUMNS" and "actual_lower_of L (lower e') = Some a"
    by (auto simp: find_Some_iff)
  with assms actual_lower_Some [of L "lower e" a] actual_lower_Some [of L "lower e'" a]
  have "e' = e"
    by (auto intro: COLUMNS_lower_inj)
  with f show ?thesis by (simp add: renamed_def)
qed

lemma renamed_lower:
  assumes "renamed L c = e" and "e \<in> set COLUMNS"
  shows "lower c = lower e"
proof (cases "find (\<lambda>e'. actual_lower_of L (lower e') = Some c) COLUMNS")
  case None
  with assms(1) show ?thesis by (simp add: renamed_def)
next
  case (Some e')
  with assms(1) have "e' = e" by (simp add: renamed_def)
  with Some have "actual_lower_of L (lower e) = Some c"
    by (auto simp: find_Some_iff)
  then show ?thesis by (simp add: actual_lower_Some)
qed

lemma renamed_added:
  assumes "actual_lower_of L (lower e) = None"
  shows "renamed L e = e"
proof (cases "find (\<lambda>e'. actual_lower_of L (lower e') = Some e) COLUMNS")
  case None
  then show ?thesis by (simp add: renamed_def)
next
  case (Some e')
  then have "actual_lower_of L (lower e') = Some e"
    by (auto simp: find_Some_iff)
  then have "e \<in> set L" and "lower e = lower e'"
    by (simp_all add: actual_lower_Some)
  with assms show ?thesis
    by (auto simp: actual_lower_None)
qed

lemma filter_concat_absent:
  "e \<notin> set cs \<Longrightarrow>
     filter (\<lambda>(l, vs). l = e) (concat (map (\<lambda>c. filter (\<lambda>(l, vs). l = c) xs) cs)) = []"
  by (induction cs) (auto simp: filter_empty_conv)

lemma filter_concat_field:
  "distinct cs \<Longrightarrow> e \<in> set cs \<Longrightarrow>
     filter (\<lambda>(l, vs). l = e) (concat (map (\<lambda>c. filter (\<lambda>(l, vs). l = c) xs) cs))
       = filter (\<lambda>(l, vs). l = e) xs"
proof (induction cs)
  case Nil
  then show ?case by simp
next
  case (Cons c cs)
  show ?case
  proof (cases "c = e")
    case True
    with Cons.prems have "e \<notin> set cs" by simp
    then have "filter (\<lambda>(l, vs). l = e)
        (concat (map (\<lambda>c. filter (\<lambda>(l, vs). l = c) xs) cs)) = []"
      by (rule filter_concat_absent)
    with True show ?thesis by simp
  next
    case False
    then have "filter (\<lambda>(l, vs). l = e) (filter (\<lambda>(l, vs). l = c) xs) = []"
      by (auto simp: filter_empty_conv)
    with False Cons show ?thesis by simp
  qed
qed

lemma grouped_again:
  assumes "distinct cs"
  shows "concat (map (\<lambda>c. filter (\<lambda>(l, vs). l = c)
            (concat (map (\<lambda>c. filter (\<lambda>(l, vs). l = c) xs) cs))) cs)
       = concat (map (\<lambda>c. filter (\<lambda>(l, vs). l = c) xs) cs)"
proof -
  have "map (\<lambda>c. filter (\<lambda>(l, vs). l = c)
            (concat (map (\<lambda>c. filter (\<lambda>(l, vs). l = c) xs) cs))) cs
      = map (\<lambda>c. filter (\<lambda>(l, vs). l = c) xs) cs"
    by (rule map_cong [OF refl]) (rule filter_concat_field [OF assms])
  then show ?thesis by (rule arg_cong)
qed

subsection \<open>The result in closed form\<close>

lemma normalize_columns_closed:
  fixes df :: dataframe
  defines "L \<equiv> labels (strip_columns df)"
  shows "normalize_columns df =
     Inr (df\<lparr>columns := concat (map (\<lambda>e. filter (\<lambda>(l, vs). l = e)
        (map (\<lambda>(c, vs). (renamed L (strip c), vs)) (columns df) @ added L (nrows df)))
        COLUMNS)\<rparr>)"
proof -
  define d0 where "d0 = strip_columns df"
  define al where "al = actual_lower_of L"
  obtain rename d1 where m: "match_expected al COLUMNS (Map.empty, d0) = (rename, d1)"
    by (cases "match_expected al COLUMNS (Map.empty, d0)")
  have al: "\<And>k a. al k = Some a \<Longrightarrow> lower a = k"
    by (simp add: al_def actual_lower_Some)
  have rename: "rename a =
      (case find (\<lambda>e. al (lower e) = Some a) COLUMNS of Some e \<Rightarrow> Some e | None \<Rightarrow> None)" for a
    using match_expected_rename [of al COLUMNS Map.empty d0 a, OF al COLUMNS_distinct_lower]
    by (simp add: m)
  have rn: "(case rename c of Some c' \<Rightarrow> c' | None \<Rightarrow> c) = renamed L c" for c
    by (simp add: rename renamed_def al_def split: option.splits)
  have fresh: "\<forall>e\<in>set COLUMNS. al (lower e) = None \<longrightarrow> e \<notin> set (labels d0)"
    by (auto simp: al_def L_def d0_def actual_lower_None)
  have "d1 = snd (match_expected al COLUMNS (Map.empty, d0))"
    by (simp only: m snd_conv)
  also have "\<dots> = d0\<lparr>columns := columns d0 @
      map (\<lambda>e. (e, replicate (nrows d0) (PyStr '''')))
        (filter (\<lambda>e. al (lower e) = None) COLUMNS)\<rparr>"
    by (rule match_expected_frame [OF COLUMNS_distinct fresh])
  finally have d1: "d1 = d0\<lparr>columns := columns d0 @ added L (nrows d0)\<rparr>"
    by (simp only: added_def al_def)
  have n0: "nrows d0 = nrows df"
    by (simp add: d0_def strip_columns_def)
  have c0: "columns d0 = map (\<lambda>(c, vs). (strip c, vs)) (columns df)"
    by (simp add: d0_def strip_columns_def)
  have added_rn: "map (\<lambda>p. (renamed L (fst p), snd p)) (added L n) = added L n" for n
    by (simp add: added_def renamed_added)
  define cols2 where
    "cols2 = map (\<lambda>(c, vs). (renamed L (strip c), vs)) (columns df) @ added L (nrows df)"
  define d2 where "d2 = rename_columns d1 rename"
  have d2: "d2 = df\<lparr>columns := cols2\<rparr>"
    by (simp add: d2_def rename_columns_def d1 rn added_rn n0 c0 cols2_def d0_def
        strip_columns_def split_def comp_def)
  have present: "set COLUMNS \<subseteq> set (labels d2)"
  proof
    fix e assume e: "e \<in> set COLUMNS"
    show "e \<in> set (labels d2)"
    proof (cases "actual_lower_of L (lower e)")
      case None
      with e have "e \<in> fst ` set (added L (nrows df))"
        by (auto simp: added_def image_iff)
      then show ?thesis
        by (auto simp: d2 labels_def cols2_def)
    next
      case (Some a)
      then have "a \<in> set L" by (simp add: actual_lower_Some)
      then obtain c vs where cv: "(c, vs) \<in> set (columns df)" and a: "a = strip c"
        by (auto simp: L_def labels_def strip_columns_def)
      from renamed_target [OF e Some] a have "renamed L (strip c) = e" by simp
      with cv have "(e, vs) \<in> set cols2"
        by (auto simp: cols2_def image_iff intro!: bexI [of _ "(c, vs)"])
      then show ?thesis
        by (auto simp: d2 labels_def image_iff intro!: bexI [of _ "(e, vs)"])
    qed
  qed
  have m': "match_expected (actual_lower_of (labels (strip_columns df))) COLUMNS
      (Map.empty, strip_columns df) = (rename, d1)"
    using m by (simp only: al_def L_def d0_def)
  have "normalize_columns df = getitem_list (fill_missing COLUMNS d2) COLUMNS"
    by (simp add: normalize_columns_def Let_def m' d2_def)
  also have "\<dots> = getitem_list d2 COLUMNS"
    by (simp add: fill_missing_present [OF present])
  also have "\<dots> = Inr (d2\<lparr>columns :=
      concat (map (\<lambda>c. filter (\<lambda>(l, vs). l = c) (columns d2)) COLUMNS)\<rparr>)"
    by (rule getitem_list_present [OF present])
  finally show ?thesis
    by (simp add: d2 cols2_def)
qed

lemma normalize_columns_total: "\<exists>out. normalize_columns df = Inr out"
  using normalize_columns_closed [of df] by blast

lemma filter_labels_matching:
  "filter (\<lambda>x. lower x = lower e) (labels (strip_columns df))
     = map (\<lambda>(c, vs). strip c) (matching df e)"
  by (simp add: labels_strip_columns matching_def filter_map comp_def split_def)

lemma filter_eq_distinct: "distinct xs \<Longrightarrow> e \<in> set xs \<Longrightarrow> filter (\<lambda>x. x = e) xs = [e]"
  by (induction xs) (auto simp: filter_empty_conv)

lemma added_field_None:
  assumes "e \<in> set COLUMNS" and "actual_lower_of L (lower e) = None"
  shows "filter (\<lambda>(l, vs). l = e) (added L n) = [(e, replicate n (PyStr ''''))]"
proof -
  have "filter (\<lambda>(l, vs). l = e) (added L n)
      = map (\<lambda>e. (e, replicate n (PyStr '''')))
          (filter (\<lambda>x. x = e \<and> actual_lower_of L (lower x) = None) COLUMNS)"
    by (simp add: added_def filter_map comp_def conj_commute)
  also have "filter (\<lambda>x. x = e \<and> actual_lower_of L (lower x) = None) COLUMNS
      = filter (\<lambda>x. x = e) COLUMNS"
    using assms(2) by (intro filter_cong) auto
  also have "\<dots> = [e]"
    by (rule filter_eq_distinct [OF COLUMNS_distinct assms(1)])
  finally show ?thesis by simp
qed

lemma added_field_Some:
  assumes "actual_lower_of L (lower e) = Some a"
  shows "filter (\<lambda>(l, vs). l = e) (added L n) = []"
  using assms by (auto simp: added_def filter_empty_conv)

lemma field_unmatched:
  assumes e: "e \<in> set COLUMNS" and none: "matching df e = []"
  defines "L \<equiv> labels (strip_columns df)"
  shows "filter (\<lambda>(l, vs). l = e)
      (map (\<lambda>(c, vs). (renamed L (strip c), vs)) (columns df) @ added L n)
    = [(e, replicate n (PyStr ''''))]"
proof -
  from none have al: "actual_lower_of L (lower e) = None"
    by (simp add: actual_lower_lookup L_def filter_labels_matching)
  have "\<forall>(c, vs)\<in>set (columns df). renamed L (strip c) \<noteq> e"
  proof (clarify)
    fix c vs assume in_df: "(c, vs) \<in> set (columns df)" and "e = renamed L (strip c)"
    then have "lower (strip c) = lower e"
      using renamed_lower [of L "strip c" e] e by simp
    with in_df have "(c, vs) \<in> set (matching df e)"
      by (simp add: matching_def)
    with none show False by simp
  qed
  then have "filter (\<lambda>(l, vs). l = e)
      (map (\<lambda>(c, vs). (renamed L (strip c), vs)) (columns df)) = []"
    by (auto simp: filter_empty_conv)
  with added_field_None [OF e al, of n] show ?thesis by simp
qed

lemma field_matched_once:
  assumes e: "e \<in> set COLUMNS" and one: "matching df e = [(c0, vs0)]"
  defines "L \<equiv> labels (strip_columns df)"
  shows "filter (\<lambda>(l, vs). l = e)
      (map (\<lambda>(c, vs). (renamed L (strip c), vs)) (columns df) @ added L n)
    = [(e, vs0)]"
proof -
  from one have al: "actual_lower_of L (lower e) = Some (strip c0)"
    by (simp add: actual_lower_lookup L_def filter_labels_matching)
  have target: "renamed L (strip c0) = e"
    by (rule renamed_target [OF e al])
  have same: "(renamed L (strip c) = e) = (lower (strip c) = lower e)"
    if "(c, vs) \<in> set (columns df)" for c vs
  proof
    assume "renamed L (strip c) = e"
    then show "lower (strip c) = lower e"
      using renamed_lower [of L "strip c" e] e by simp
  next
    assume "lower (strip c) = lower e"
    with that have "(c, vs) \<in> set (matching df e)"
      by (simp add: matching_def)
    with one have "c = c0" by simp
    with target show "renamed L (strip c) = e" by simp
  qed
  have "filter (\<lambda>(l, vs). l = e) (map (\<lambda>(c, vs). (renamed L (strip c), vs)) (columns df))
      = map (\<lambda>(c, vs). (renamed L (strip c), vs))
          (filter (\<lambda>(c, vs). renamed L (strip c) = e) (columns df))"
    by (simp add: filter_map comp_def split_def)
  also have "filter (\<lambda>(c, vs). renamed L (strip c) = e) (columns df) = matching df e"
    unfolding matching_def using same by (intro filter_cong) auto
  finally have "filter (\<lambda>(l, vs). l = e)
      (map (\<lambda>(c, vs). (renamed L (strip c), vs)) (columns df)) = [(e, vs0)]"
    by (simp add: one target)
  with added_field_Some [OF al, of n] show ?thesis by simp
qed

lemma normalize_columns_field:
  assumes "e \<in> set COLUMNS"
  shows "\<exists>out. normalize_columns df = Inr out \<and> nrows out = nrows df
     \<and> filter (\<lambda>(l, vs). l = e) (columns out) =
         filter (\<lambda>(l, vs). l = e)
           (map (\<lambda>(c, vs). (renamed (labels (strip_columns df)) (strip c), vs)) (columns df)
            @ added (labels (strip_columns df)) (nrows df))"
proof -
  define xs where "xs =
     map (\<lambda>(c, vs). (renamed (labels (strip_columns df)) (strip c), vs)) (columns df)
       @ added (labels (strip_columns df)) (nrows df)"
  define out where
    "out = df\<lparr>columns := concat (map (\<lambda>e. filter (\<lambda>(l, vs). l = e) xs) COLUMNS)\<rparr>"
  have n: "normalize_columns df = Inr out"
    unfolding out_def xs_def by (rule normalize_columns_closed)
  have "filter (\<lambda>(l, vs). l = e) (columns out) = filter (\<lambda>(l, vs). l = e) xs"
    using filter_concat_field [OF COLUMNS_distinct assms, of xs] by (simp add: out_def)
  moreover have "nrows out = nrows df"
    by (simp add: out_def)
  ultimately show ?thesis
    using n unfolding xs_def by blast
qed

lemma normalize_columns_unmatched:
  assumes "e \<in> set COLUMNS" and "matching df e = []"
  shows "\<exists>out. normalize_columns df = Inr out
     \<and> filter (\<lambda>(l, ws). l = e) (columns out) = [(e, replicate (nrows df) (PyStr ''''))]"
  using normalize_columns_field [OF assms(1), of df] field_unmatched [OF assms]
  by auto

lemma normalize_columns_fixpoint:
  fixes df :: dataframe
  assumes present: "set COLUMNS \<subseteq> fst ` set xs"
  defines "d \<equiv> df\<lparr>columns := concat (map (\<lambda>e. filter (\<lambda>(l, vs). l = e) xs) COLUMNS)\<rparr>"
  shows "normalize_columns d = Inr d"
proof -
  define L where "L = labels (strip_columns d)"
  have cols: "columns d = concat (map (\<lambda>e. filter (\<lambda>(l, vs). l = e) xs) COLUMNS)"
    by (simp add: d_def)
  have in_COLUMNS: "c \<in> set COLUMNS" if "(c, vs) \<in> set (columns d)" for c vs
    using that by (auto simp: cols)
  have stripped: "map (\<lambda>(c, vs). (f (strip c), vs)) (columns d) = map (\<lambda>(c, vs). (f c, vs)) (columns d)"
    for f :: "string \<Rightarrow> string"
    by (rule map_cong [OF refl]) (auto simp: COLUMNS_strip dest: in_COLUMNS)
  have L: "L = map fst (columns d)"
    unfolding L_def labels_strip_columns
    by (rule map_cong [OF refl]) (auto simp: COLUMNS_strip dest: in_COLUMNS)
  have L_sub: "set L \<subseteq> set COLUMNS"
    using in_COLUMNS by (auto simp: L)
  have L_sup: "set COLUMNS \<subseteq> set L"
  proof
    fix e assume e: "e \<in> set COLUMNS"
    with present obtain vs where "(e, vs) \<in> set xs" by auto
    with e show "e \<in> set L"
      by (auto simp: L cols image_iff intro!: bexI [of _ e] bexI [of _ "(e, vs)"])
  qed
  have al: "actual_lower_of L (lower e) = Some e" if e: "e \<in> set COLUMNS" for e
  proof -
    from e L_sup have "e \<in> set (filter (\<lambda>c. lower c = lower e) L)" by auto
    then obtain y ys where f: "filter (\<lambda>c. lower c = lower e) L = y # ys"
      by (cases "filter (\<lambda>c. lower c = lower e) L") auto
    have "last (y # ys) \<in> set (filter (\<lambda>c. lower c = lower e) L)"
      unfolding f by (rule last_in_set) simp
    then have "last (y # ys) \<in> set COLUMNS" and "lower (last (y # ys)) = lower e"
      using L_sub by auto
    with e have "last (y # ys) = e"
      by (auto intro: COLUMNS_lower_inj)
    with f show ?thesis by (simp add: actual_lower_lookup)
  qed
  have no_added: "added L n = []" for n
    by (simp add: added_def filter_empty_conv al)
  have rn: "renamed L c = c" if "c \<in> set COLUMNS" for c
    by (rule renamed_target [OF that al [OF that]])
  have "map (\<lambda>(c, vs). (renamed L (strip c), vs)) (columns d)
      = map (\<lambda>(c, vs). (renamed L c, vs)) (columns d)"
    by (rule stripped)
  also have "\<dots> = map (\<lambda>(c, vs). (c, vs)) (columns d)"
    by (rule map_cong [OF refl]) (auto simp: rn dest: in_COLUMNS)
  finally have same: "map (\<lambda>(c, vs). (renamed L (strip c), vs)) (columns d) = columns d"
    by simp
  have "normalize_columns d =
      Inr (d\<lparr>columns := concat (map (\<lambda>e. filter (\<lambda>(l, vs). l = e) (columns d)) COLUMNS)\<rparr>)"
    using normalize_columns_closed [of d] by (simp add: L_def [symmetric] same no_added)
  also have "concat (map (\<lambda>e. filter (\<lambda>(l, vs). l = e) (columns d)) COLUMNS) = columns d"
    unfolding cols by (rule grouped_again [OF COLUMNS_distinct])
  finally show ?thesis by simp
qed

lemma normalize_raw_mw_twice:
  "normalize_columns raw_mw_twice =
   Inr \<lparr>nrows = 1, columns = [
     (''Project Name'', [PyStr '''']), (''Company'', [PyStr '''']),
     (''MW'', [PyOther ''1'']), (''MW'', [PyOther ''2'']),
     (''Location'', [PyStr '''']), (''Connection date'', [PyStr '''']),
     (''Comments'', [PyStr '''']), (''Sources'', [PyStr '''']), (''PNG Name'', [PyStr ''''])]\<rparr>"
proof -
  have s: "strip ''MW'' = ''MW''" "strip ''MW '' = ''MW''"
    by (simp_all add: text_eval)
  have L: "labels (strip_columns raw_mw_twice) = [''MW'', ''MW'']"
    by (simp add: raw_mw_twice_def labels_strip_columns s)
  have al: "actual_lower_of [''MW'', ''MW''] k = (if k = ''mw'' then Some ''MW'' else None)" for k
    by (simp add: actual_lower_lookup text_eval)
  have add: "added [''MW'', ''MW''] n = map (\<lambda>e. (e, replicate n (PyStr ''''))) [''Project Name'',
      ''Company'', ''Location'', ''Connection date'', ''Comments'', ''Sources'', ''PNG Name'']" for n
    by (simp add: added_def al COLUMNS_def text_eval)
  have r: "renamed [''MW'', ''MW''] ''MW'' = ''MW''"
    by (simp add: renamed_def al COLUMNS_def text_eval)
  show ?thesis
    unfolding normalize_columns_closed L
    by (simp add: raw_mw_twice_def s r add COLUMNS_def)
qed

lemma normalize_raw_mw_cases:
  "normalize_columns raw_mw_cases =
   Inr \<lparr>nrows = 1, columns = [
     (''Project Name'', [PyStr '''']), (''Company'', [PyStr '''']),
     (''MW'', [PyOther ''2'']),
     (''Location'', [PyStr '''']), (''Connection date'', [PyStr '''']),
     (''Comments'', [PyStr '''']), (''Sources'', [PyStr '''']), (''PNG Name'', [PyStr ''''])]\<rparr>"
proof -
  have s: "strip ''mw'' = ''mw''" "strip ''MW'' = ''MW''"
    by (simp_all add: text_eval)
  have L: "labels (strip_columns raw_mw_cases) = [''mw'', ''MW'']"
    by (simp add: raw_mw_cases_def labels_strip_columns s)
  have al: "actual_lower_of [''mw'', ''MW''] k = (if k = ''mw'' then Some ''MW'' else None)" for k
    by (simp add: actual_lower_lookup text_eval)
  have add: "added [''mw'', ''MW''] n = map (\<lambda>e. (e, replicate n (PyStr ''''))) [''Project Name'',
      ''Company'', ''Location'', ''Connection date'', ''Comments'', ''Sources'', ''PNG Name'']" for n
    by (simp add: added_def al COLUMNS_def text_eval)
  have r1: "renamed [''mw'', ''MW''] ''mw'' = ''mw''"
    by (simp add: renamed_def al COLUMNS_def text_eval)
  have r2: "renamed [''mw'', ''MW''] ''MW'' = ''MW''"
    by (simp add: renamed_def al COLUMNS_def text_eval)
  show ?thesis
    unfolding normalize_columns_closed L
    by (simp add: raw_mw_cases_def s r1 r2 add COLUMNS_def)
qed

lemma matching_raw1:
  "matching raw1 ''Project Name'' = [(''project name'', [PyStr ''A'', PyStr ''B''])]"
  "matching raw1 ''Company'' = [(''Company'', [PyStr ''X'', PyNone])]"
  "matching raw1 ''MW'' = [(''MW '', [PyOther ''100'', PyFloat NaN])]"
  "matching raw1 ''Location'' = []"
  "matching raw1 ''Connection date'' = []"
  "matching raw1 ''Comments'' = []"
  "matching raw1 ''Sources'' = []"
  "matching raw1 ''PNG Name'' = []"
  by (simp_all add: matching_def raw1_def text_eval)

subsection \<open>Idempotence\<close>

lemma normalize_columns_again:
  "\<exists>out. normalize_columns df = Inr out \<and> normalize_columns out = Inr out"
proof -
  define L where "L = labels (strip_columns df)"
  define xs where
    "xs = map (\<lambda>(c, vs). (renamed L (strip c), vs)) (columns df) @ added L (nrows df)"
  define out where
    "out = df\<lparr>columns := concat (map (\<lambda>e. filter (\<lambda>(l, vs). l = e) xs) COLUMNS)\<rparr>"
  have n: "normalize_columns df = Inr out"
    unfolding out_def xs_def L_def by (rule normalize_columns_closed)
  have "set COLUMNS \<subseteq> fst ` set xs"
  proof
    fix e assume e: "e \<in> set COLUMNS"
    show "e \<in> fst ` set xs"
    proof (cases "actual_lower_of L (lower e)")
      case None
      with e have "e \<in> fst ` set (added L (nrows df))"
        by (auto simp: added_def image_iff)
      then show ?thesis by (auto simp: xs_def)
    next
      case (Some a)
      then have "a \<in> set L" by (simp add: actual_lower_Some)
      then obtain c vs where cv: "(c, vs) \<in> set (columns df)" and a: "a = strip c"
        by (auto simp: L_def labels_strip_columns)
      from renamed_target [OF e Some] a have "renamed L (strip c) = e" by simp
      with cv have "(e, vs) \<in> set xs"
        by (auto simp: xs_def image_iff intro!: bexI [of _ "(c, vs)"])
      then show ?thesis by (auto simp: image_iff intro!: bexI [of _ "(e, vs)"])
    qed
  qed
  then have "normalize_columns out = Inr out"
    unfolding out_def by (rule normalize_columns_fixpoint)
  with n show ?thesis by blast
qed

lemma normalize_columns_fixed:
  assumes "normalize_columns df = Inr out"
  shows "normalize_columns out = Inr out"
  using normalize_columns_again [of df] assms by auto

lemma normalize_columns_call_refines:
  assumes "arg < length s0"
  shows "\<exists>tmp out. normalize_columns (s0 ! arg) = Inr out
     \<and> normalize_columns_call s0 arg = (s0 @ tmp @ [out], Inr (length s0 + length tmp))"
proof -
  define d0 where "d0 = strip_columns (s0 ! arg)"
  obtain rename d1 where m:
    "match_expected (actual_lower_of (labels d0)) COLUMNS (Map.empty, d0) = (rename, d1)"
    by (cases "match_expected (actual_lower_of (labels d0)) COLUMNS (Map.empty, d0)")
  define d2 where "d2 = fill_missing COLUMNS (rename_columns d1 rename)"
  obtain out where out: "normalize_columns (s0 ! arg) = Inr out"
    using normalize_columns_total by blast
  then have g: "getitem_list d2 COLUMNS = Inr out"
    by (simp add: normalize_columns_def Let_def d0_def [symmetric] m d2_def)
  have "normalize_columns_call s0 arg = (s0 @ [d1, d2, out] @ [out], Inr (length s0 + length [d1, d2, out]))"
    using assms
    by (simp add: normalize_columns_call_def alloc_def Let_def nth_append list_update_append d0_def [symmetric] m
        d2_def [symmetric] g)
  with out show ?thesis by blast
qed

text \<open>
  C8. \<^verbatim>\<open>normalize_columns\<close> returns for every raw table, and normalising its result returns
  that result unchanged. As a call on the table of the caller in a store: the call leaves
  that table as it was, a second call on it returns an equal table, and a call on the
  returned table returns a table equal to it and leaves it as it was.
\<close>

theorem normalize_columns_twice:
  "(\<exists>out. normalize_columns df = Inr out \<and> normalize_columns out = Inr out)
   \<and> (raw < length s \<longrightarrow>
        (\<exists>s1 r1 s2 r2 s3 r3.
            normalize_columns_call s raw = (s1, Inr r1)
          \<and> normalize_columns_call s1 raw = (s2, Inr r2)
          \<and> normalize_columns_call s2 r1 = (s3, Inr r3)
          \<and> s1 ! raw = s ! raw \<and> s3 ! raw = s ! raw
          \<and> s2 ! r2 = s1 ! r1
          \<and> s3 ! r3 = s1 ! r1 \<and> s3 ! r1 = s1 ! r1))"
proof -
  have pure: "\<exists>out. normalize_columns df = Inr out \<and> normalize_columns out = Inr out"
    using normalize_columns_total [of df] normalize_columns_fixed by blast
  have store: "\<exists>s1 r1 s2 r2 s3 r3.
            normalize_columns_call s raw = (s1, Inr r1)
          \<and> normalize_columns_call s1 raw = (s2, Inr r2)
          \<and> normalize_columns_call s2 r1 = (s3, Inr r3)
          \<and> s1 ! raw = s ! raw \<and> s3 ! raw = s ! raw
          \<and> s2 ! r2 = s1 ! r1
          \<and> s3 ! r3 = s1 ! r1 \<and> s3 ! r1 = s1 ! r1"
    if raw: "raw < length s"
  proof -
    from normalize_columns_call_refines [OF raw] obtain tmp1 out where
      out: "normalize_columns (s ! raw) = Inr out"
      and c1: "normalize_columns_call s raw = (s @ tmp1 @ [out], Inr (length s + length tmp1))"
      by blast
    define s1 where "s1 = s @ tmp1 @ [out]"
    define r1 where "r1 = length s + length tmp1"
    have raw1: "raw < length s1" and s1_raw: "s1 ! raw = s ! raw"
      using raw by (simp_all add: s1_def nth_append)
    have s1_r1: "s1 ! r1 = out" and r1: "r1 < length s1"
      by (simp_all add: s1_def r1_def nth_append)
    from normalize_columns_call_refines [OF raw1] out s1_raw obtain tmp2 where
      c2: "normalize_columns_call s1 raw = (s1 @ tmp2 @ [out], Inr (length s1 + length tmp2))"
      by auto
    define s2 where "s2 = s1 @ tmp2 @ [out]"
    define r2 where "r2 = length s1 + length tmp2"
    have r1': "r1 < length s2"
      using r1 by (simp add: s2_def)
    have "s2 ! r1 = s1 ! r1"
      using r1 by (simp add: s2_def nth_append)
    with s1_r1 have s2_r1: "s2 ! r1 = out" by simp
    have s2_r2: "s2 ! r2 = out"
      by (simp add: s2_def r2_def nth_append)
    have fixed: "normalize_columns out = Inr out"
      using out by (rule normalize_columns_fixed)
    from normalize_columns_call_refines [OF r1'] fixed s2_r1 obtain tmp3 where
      c3: "normalize_columns_call s2 r1 = (s2 @ tmp3 @ [out], Inr (length s2 + length tmp3))"
      by auto
    define s3 where "s3 = s2 @ tmp3 @ [out]"
    define r3 where "r3 = length s2 + length tmp3"
    have s3_r3: "s3 ! r3 = out"
      by (simp add: s3_def r3_def nth_append)
    have "s3 ! r1 = s2 ! r1"
      using r1' by (simp add: s3_def nth_append)
    with s2_r1 have s3_r1: "s3 ! r1 = out" by simp
    have "raw < length s2"
      using raw1 by (simp add: s2_def)
    then have "s3 ! raw = s2 ! raw"
      by (simp add: s3_def nth_append)
    also have "\<dots> = s1 ! raw"
      using raw1 by (simp add: s2_def nth_append)
    finally have s3_raw: "s3 ! raw = s ! raw"
      using s1_raw by simp
    from c1 c2 c3 s1_raw s3_raw s2_r2 s1_r1 s3_r3 s3_r1
    have "normalize_columns_call s raw = (s1, Inr r1)
          \<and> normalize_columns_call s1 raw = (s2, Inr r2)
          \<and> normalize_columns_call s2 r1 = (s3, Inr r3)
          \<and> s1 ! raw = s ! raw \<and> s3 ! raw = s ! raw
          \<and> s2 ! r2 = s1 ! r1
          \<and> s3 ! r3 = s1 ! r1 \<and> s3 ! r1 = s1 ! r1"
      by (simp add: s1_def r1_def s2_def r2_def s3_def r3_def)
    then show ?thesis by blast
  qed
  from pure store show ?thesis by blast
qed

theorem normalize_columns_twice_witness:
  "(\<exists>out. normalize_columns raw1 = Inr out \<and> normalize_columns out = Inr out)
   \<and> (\<exists>s1 r1 s2 r2 s3 r3.
            normalize_columns_call [raw1] 0 = (s1, Inr r1)
          \<and> normalize_columns_call s1 0 = (s2, Inr r2)
          \<and> normalize_columns_call s2 r1 = (s3, Inr r3)
          \<and> s1 ! 0 = raw1 \<and> s3 ! 0 = raw1
          \<and> s2 ! r2 = s1 ! r1
          \<and> s3 ! r3 = s1 ! r1 \<and> s3 ! r1 = s1 ! r1)"
  using normalize_columns_twice [of raw1 0 "[raw1]"] by simp

subsection \<open>Matching a column\<close>

text \<open>
  C5, as stated, fails: of two raw columns \<^verbatim>\<open>mw\<close> and \<^verbatim>\<open>MW\<close>, both equal to the expected
  field \<^verbatim>\<open>MW\<close> up to letter case, only the later one is kept; the values of the first are
  not in the result.
\<close>

theorem normalize_columns_case_variants:
  "''MW'' \<in> set COLUMNS
   \<and> (''mw'', [PyOther ''1'']) \<in> set (columns raw_mw_cases)
   \<and> lower (strip ''mw'') = lower ''MW''
   \<and> normalize_columns raw_mw_cases =
       Inr \<lparr>nrows = 1, columns = [
         (''Project Name'', [PyStr '''']), (''Company'', [PyStr '''']),
         (''MW'', [PyOther ''2'']),
         (''Location'', [PyStr '''']), (''Connection date'', [PyStr '''']),
         (''Comments'', [PyStr '''']), (''Sources'', [PyStr '''']), (''PNG Name'', [PyStr ''''])]\<rparr>"
proof -
  have a: "''MW'' \<in> set COLUMNS"
    by (simp add: COLUMNS_def)
  have b: "(''mw'', [PyOther ''1'']) \<in> set (columns raw_mw_cases)"
    by (simp add: raw_mw_cases_def)
  have c: "lower (strip ''mw'') = lower ''MW''"
    by (simp add: text_eval)
  from a b c normalize_raw_mw_cases show ?thesis
    by blast
qed

text \<open>
  C5, amended. When exactly one raw column has a label that, trimmed, equals an expected
  field up to letter case, the result has exactly one column for that field, and it holds
  the values of that raw column.
\<close>

theorem normalize_columns_matched:
  assumes "e \<in> set COLUMNS" and "matching df e = [(c, vs)]"
  shows "\<exists>out. normalize_columns df = Inr out
     \<and> filter (\<lambda>(l, ws). l = e) (columns out) = [(e, vs)]"
  using normalize_columns_field [OF assms(1), of df] field_matched_once [OF assms]
  by auto

theorem normalize_columns_matched_witness:
  "''MW'' \<in> set COLUMNS
   \<and> matching raw1 ''MW'' = [(''MW '', [PyOther ''100'', PyFloat NaN])]
   \<and> (\<exists>out. normalize_columns raw1 = Inr out
        \<and> filter (\<lambda>(l, ws). l = ''MW'') (columns out) = [(''MW'', [PyOther ''100'', PyFloat NaN])])"
proof -
  have e: "''MW'' \<in> set COLUMNS"
    by (simp add: COLUMNS_def)
  from normalize_columns_matched [OF e matching_raw1(3)] e matching_raw1(3)
  show ?thesis by blast
qed

subsection \<open>The eight columns\<close>

text \<open>
  C1, as stated, fails: of two raw columns \<^verbatim>\<open>MW\<close> and \<^verbatim>\<open>MW \<close> (with a trailing space) both
  are kept under the label \<^verbatim>\<open>MW\<close>, and the result has nine columns.
\<close>

theorem normalize_columns_colliding_headers:
  "normalize_columns raw_mw_twice =
   Inr \<lparr>nrows = 1, columns = [
     (''Project Name'', [PyStr '''']), (''Company'', [PyStr '''']),
     (''MW'', [PyOther ''1'']), (''MW'', [PyOther ''2'']),
     (''Location'', [PyStr '''']), (''Connection date'', [PyStr '''']),
     (''Comments'', [PyStr '''']), (''Sources'', [PyStr '''']), (''PNG Name'', [PyStr ''''])]\<rparr>
   \<and> length COLUMNS = 8"
  by (simp add: normalize_raw_mw_twice COLUMNS_def)

text \<open>
  C1, amended. For every raw table in which no expected field is matched by more than one
  raw column, the result has exactly the eight expected columns in their order and the rows
  of the raw table; an expected field that no raw column matches holds the empty string in
  every row, a matched one holds the values of its column, and no other raw column is kept.
\<close>

theorem normalize_columns_exact:
  assumes "\<forall>e\<in>set COLUMNS. length (matching df e) \<le> 1"
  shows "normalize_columns df =
     Inr \<lparr>nrows = nrows df, columns = map (\<lambda>e. (e, expected_values df e)) COLUMNS\<rparr>"
proof -
  define L where "L = labels (strip_columns df)"
  define xs where
    "xs = map (\<lambda>(c, vs). (renamed L (strip c), vs)) (columns df) @ added L (nrows df)"
  have field: "filter (\<lambda>(l, vs). l = e) xs = [(e, expected_values df e)]"
    if e: "e \<in> set COLUMNS" for e
  proof (cases "matching df e")
    case Nil
    with field_unmatched [OF e Nil, of "nrows df"] show ?thesis
      by (simp add: xs_def L_def expected_values_def)
  next
    case (Cons p ps)
    with assms e have ps: "ps = []" by auto
    obtain c vs where p: "p = (c, vs)" by (cases p)
    with Cons ps have one: "matching df e = [(c, vs)]" by simp
    with field_matched_once [OF e one, of "nrows df"] show ?thesis
      by (simp add: xs_def L_def expected_values_def)
  qed
  have "map (\<lambda>e. filter (\<lambda>(l, vs). l = e) xs) COLUMNS
      = map (\<lambda>e. [(e, expected_values df e)]) COLUMNS"
    by (rule map_cong [OF refl]) (rule field)
  then have "concat (map (\<lambda>e. filter (\<lambda>(l, vs). l = e) xs) COLUMNS)
      = concat (map (\<lambda>e. [(e, expected_values df e)]) COLUMNS)"
    by (rule arg_cong)
  also have "\<dots> = map (\<lambda>e. (e, expected_values df e)) COLUMNS"
    by (induction COLUMNS) simp_all
  finally have "normalize_columns df =
      Inr (df\<lparr>columns := map (\<lambda>e. (e, expected_values df e)) COLUMNS\<rparr>)"
    using normalize_columns_closed [of df] by (simp add: xs_def L_def)
  then show ?thesis by simp
qed

theorem normalize_columns_exact_witness:
  "normalize_columns raw1 =
   Inr \<lparr>nrows = 2, columns = [
     (''Project Name'', [PyStr ''A'', PyStr ''B'']),
     (''Company'', [PyStr ''X'', PyNone]),
     (''MW'', [PyOther ''100'', PyFloat NaN]),
     (''Location'', [PyStr '''', PyStr '''']),
     (''Connection date'', [PyStr '''', PyStr '''']),
     (''Comments'', [PyStr '''', PyStr '''']),
     (''Sources'', [PyStr '''', PyStr '''']),
     (''PNG Name'', [PyStr '''', PyStr ''''])]\<rparr>"
proof -
  have "\<forall>e\<in>set COLUMNS. length (matching raw1 e) \<le> 1"
    by (simp add: COLUMNS_def matching_raw1)
  from normalize_columns_exact [OF this] show ?thesis
    by (simp add: COLUMNS_def expected_values_def matching_raw1) (simp add: raw1_def numeral_2_eq_2)
qed

section \<open>Properties of the loading\<close>

lemma load_df_cached:
  "cache path = Some t \<Longrightarrow> load_df cache fs path = (Inr t, cache)"
  by (simp add: load_df_def)

lemma load_df_miss:
  "cache path = None \<Longrightarrow>
     load_df cache fs path =
       (case load_df_body fs path of
          Inr df \<Rightarrow> (Inr df, cache(path \<mapsto> df))
        | Inl e \<Rightarrow> (Inl e, cache))"
  by (simp add: load_df_def)

lemma normalize_empty_table:
  "normalize_columns empty_table =
   Inr \<lparr>nrows = 0, columns = [
     (''Project Name'', []), (''Company'', []), (''MW'', []), (''Location'', []),
     (''Connection date'', []), (''Comments'', []), (''Sources'', []), (''PNG Name'', [])]\<rparr>"
proof -
  have L: "labels (strip_columns empty_table) = []"
    by (simp add: empty_table_def labels_strip_columns)
  have al: "actual_lower_of [] k = None" for k
    by (simp add: actual_lower_of_def)
  have add: "added [] n = map (\<lambda>e. (e, replicate n (PyStr ''''))) COLUMNS" for n
    by (simp add: added_def al)
  show ?thesis
    unfolding normalize_columns_closed L
    by (simp add: empty_table_def add COLUMNS_def)
qed

lemma load_df_empty_sheet:
  "load_df Map.empty files_empty_sheet EXCEL_FILE =
   (Inr \<lparr>nrows = 0, columns = [
     (''Project Name'', []), (''Company'', []), (''MW'', []), (''Location'', []),
     (''Connection date'', []), (''Comments'', []), (''Sources'', []), (''PNG Name'', [])]\<rparr>,
    Map.empty(EXCEL_FILE \<mapsto> \<lparr>nrows = 0, columns = [
     (''Project Name'', []), (''Company'', []), (''MW'', []), (''Location'', []),
     (''Connection date'', []), (''Comments'', []), (''Sources'', []), (''PNG Name'', [])]\<rparr>))"
  by (simp add: load_df_def load_df_body_def files_empty_sheet_def normalize_empty_table)

text \<open>
  C7, as stated, fails. The first call finds the file, reads an empty sheet and stores the
  normalised table; a later call with the store that call left returns that table although
  the file is gone.
\<close>

theorem load_df_cached_missing_file:
  "\<not> path_exists files_missing EXCEL_FILE
   \<and> fst (load_df (snd (load_df Map.empty files_empty_sheet EXCEL_FILE)) files_missing EXCEL_FILE)
       = Inr \<lparr>nrows = 0, columns = [
           (''Project Name'', []), (''Company'', []), (''MW'', []), (''Location'', []),
           (''Connection date'', []), (''Comments'', []), (''Sources'', []), (''PNG Name'', [])]\<rparr>"
  by (simp add: load_df_empty_sheet load_df_cached files_missing_def)

text \<open>
  C7, amended. On a call for a path that has no stored table, loading fails with
  \<^verbatim>\<open>FileNotFoundError\<close> exactly when the file does not exist; when the file exists, an error
  of \<^verbatim>\<open>pd.read_excel\<close> comes out as it is, and a table that was read is normalised, returned
  and stored: nothing else is checked. On a call for a path that has a stored table, that
  table is returned and nothing is checked.
\<close>

theorem load_df_first_load:
  "(cache path = None \<longrightarrow>
      ((\<exists>msg. fst (load_df cache fs path) = Inl (FileNotFoundError msg))
          \<longleftrightarrow> \<not> path_exists fs path)
      \<and> (\<forall>e. path_exists fs path \<and> read_excel fs path = Inl e \<longrightarrow>
            load_df cache fs path = (Inl (Raised_by_read_excel e), cache))
      \<and> (\<forall>df. path_exists fs path \<and> read_excel fs path = Inr df \<longrightarrow>
            (\<exists>out. normalize_columns df = Inr out
               \<and> load_df cache fs path = (Inr out, cache(path \<mapsto> out)))))
   \<and> (\<forall>t. cache path = Some t \<longrightarrow> load_df cache fs path = (Inr t, cache))"
proof (intro conjI impI allI)
  assume miss: "cache path = None"
  show "(\<exists>msg. fst (load_df cache fs path) = Inl (FileNotFoundError msg))
      \<longleftrightarrow> \<not> path_exists fs path"
  proof (cases "path_exists fs path")
    case False
    then show ?thesis
      by (simp add: load_df_miss [of cache path, OF miss] load_df_body_def)
  next
    case True
    show ?thesis
    proof (cases "read_excel fs path")
      case (Inl e)
      with True show ?thesis
        by (simp add: load_df_miss [of cache path, OF miss] load_df_body_def)
    next
      case (Inr df)
      obtain out where "normalize_columns df = Inr out"
        using normalize_columns_total by blast
      with True Inr show ?thesis
        by (simp add: load_df_miss [of cache path, OF miss] load_df_body_def)
    qed
  qed
next
  fix e
  assume miss: "cache path = None"
    and "path_exists fs path \<and> read_excel fs path = Inl e"
  then show "load_df cache fs path = (Inl (Raised_by_read_excel e), cache)"
    by (simp add: load_df_miss [of cache path, OF miss] load_df_body_def)
next
  fix df
  assume miss: "cache path = None"
    and ok: "path_exists fs path \<and> read_excel fs path = Inr df"
  obtain out where out: "normalize_columns df = Inr out"
    using normalize_columns_total by blast
  with ok have "load_df cache fs path = (Inr out, cache(path \<mapsto> out))"
    by (simp add: load_df_miss [of cache path, OF miss] load_df_body_def)
  with out show "\<exists>out. normalize_columns df = Inr out
      \<and> load_df cache fs path = (Inr out, cache(path \<mapsto> out))"
    by blast
next
  fix t
  assume "cache path = Some t"
  then show "load_df cache fs path = (Inr t, cache)"
    by (rule load_df_cached)
qed

theorem load_df_first_load_witness:
  "(\<exists>msg. fst (load_df Map.empty files_missing EXCEL_FILE) = Inl (FileNotFoundError msg))
   \<and> load_df Map.empty files_unreadable EXCEL_FILE = (Inl (Raised_by_read_excel ()), Map.empty)
   \<and> (\<exists>out. normalize_columns empty_table = Inr out
        \<and> load_df Map.empty files_empty_sheet EXCEL_FILE = (Inr out, Map.empty(EXCEL_FILE \<mapsto> out)))
   \<and> load_df (snd (load_df Map.empty files_empty_sheet EXCEL_FILE)) files_missing EXCEL_FILE
       = load_df Map.empty files_empty_sheet EXCEL_FILE"
proof -
  have first: "(\<exists>msg. fst (load_df Map.empty files_missing EXCEL_FILE) = Inl (FileNotFoundError msg))
   \<and> load_df Map.empty files_unreadable EXCEL_FILE = (Inl (Raised_by_read_excel ()), Map.empty)
   \<and> (\<exists>out. normalize_columns empty_table = Inr out
        \<and> load_df Map.empty files_empty_sheet EXCEL_FILE = (Inr out, Map.empty(EXCEL_FILE \<mapsto> out)))"
    using load_df_first_load [of Map.empty EXCEL_FILE files_missing]
      load_df_first_load [of Map.empty EXCEL_FILE files_unreadable]
      load_df_first_load [of Map.empty EXCEL_FILE files_empty_sheet]
    by (simp add: files_missing_def files_unreadable_def files_empty_sheet_def)
  define stored where "stored = snd (load_df Map.empty files_empty_sheet EXCEL_FILE)"
  obtain t where t: "load_df Map.empty files_empty_sheet EXCEL_FILE = (Inr t, Map.empty(EXCEL_FILE \<mapsto> t))"
    using first by blast
  then have "stored EXCEL_FILE = Some t"
    by (simp add: stored_def)
  with load_df_first_load [of stored EXCEL_FILE files_missing]
  have "load_df stored files_missing EXCEL_FILE = (Inr t, stored)"
    by blast
  with t have "load_df stored files_missing EXCEL_FILE
      = load_df Map.empty files_empty_sheet EXCEL_FILE"
    by (simp add: stored_def)
  with first show ?thesis
    by (simp only: stored_def)
qed

end
